theory Spec2Isabelle
  imports Complex_Main "HOL-Library.Word"
begin

unbundle bit_operations_syntax

section \<open>Data model\<close>

text \<open>
  The repository holds two implementations of the dense state-vector register: the
  header-only class \<open>Qrack::Register\<close> (qrack.hpp) and the OpenCL class
  \<open>Qrack::CoherentUnit\<close> (qrack_ocl.cpp). Both keep the same four data fields, so one
  record serves both; the operations of the two classes are embedded separately, the
  header's with the prefix \<open>Register_\<close>.

  \<^item> \<open>bitCapInt\<close> is \<open>uint64_t\<close>: a 64-bit word.
  \<^item> \<open>bitLenInt\<close> is \<open>uint8_t\<close>; every use of it in the code is promoted to \<open>int\<close>
    before arithmetic, so a qubit index or count is given by its value, a \<open>nat\<close>.
  \<^item> \<open>Complex16\<close> is a pair of doubles; the embedding idealises doubles as reals, so an
    amplitude is a \<open>complex\<close>.
  \<^item> Each call of \<open>Rand()\<close> is an explicit argument of the operation that makes it,
    in the order the code draws.
\<close>

type_synonym bitCapInt = "64 word"
type_synonym bitLenInt = nat

record qregister =
  runningNorm :: real
  qubitCount :: bitLenInt
  maxQPower :: bitCapInt
  stateVec :: "complex list"

datatype error = InvalidArgument | UndefinedShift | OutOfBounds

text \<open>
  The host code writes every power of two as \<open>1 << n\<close> with the literal \<open>1\<close> of type
  \<open>int\<close> (32 bits): the shift has a defined value only for \<open>n < 31\<close>. The constructors
  evaluate it through \<open>int_shl\<close>, which reports the undefined cases; the other
  operations use \<open>pow2\<close> and are stated for registers of at most 30 qubits.
\<close>

definition pow2 :: "nat \<Rightarrow> bitCapInt" where
  "pow2 n = push_bit n 1"

definition int_shl :: "nat \<Rightarrow> error + bitCapInt" where
  "int_shl n = (if n < 31 then Inr (pow2 n) else Inl UndefinedShift)"

definition phase :: "real \<Rightarrow> complex" where
  "phase angle = Complex (cos angle) (sin angle)"

section \<open>Constructors\<close>

text \<open>
  \<open>CoherentUnit::CoherentUnit(bitLenInt qBitCount)\<close>: the guard against more qubits than
  the index type has bits, then the zero vector with a unit phase at index 0. The
  argument \<open>rnd\<close> is the value of \<open>Rand()\<close>.
\<close>

definition CoherentUnit_new :: "bitLenInt \<Rightarrow> real \<Rightarrow> error + qregister" where
  "CoherentUnit_new qBitCount rnd =
     (if qBitCount > 8 * 8 then Inl InvalidArgument
      else let angle = rnd * 2 * pi in
        case int_shl qBitCount of
          Inl e \<Rightarrow> Inl e
        | Inr mp \<Rightarrow>
            Inr \<lparr>runningNorm = 1, qubitCount = qBitCount, maxQPower = mp,
                 stateVec = (replicate (unat mp) 0)[0 := phase angle]\<rparr>)"

text \<open>
  \<open>CoherentUnit::CoherentUnit(bitLenInt qBitCount, bitCapInt initState)\<close>: the same
  body without the guard; the phase is stored at \<open>stateVec[initState]\<close>, a write outside
  the allocation when \<open>initState\<close> is not below \<open>maxQPower\<close>.
\<close>

definition CoherentUnit_perm :: "bitLenInt \<Rightarrow> bitCapInt \<Rightarrow> real \<Rightarrow> error + qregister" where
  "CoherentUnit_perm qBitCount initState rnd =
     (let angle = rnd * 2 * pi in
        case int_shl qBitCount of
          Inl e \<Rightarrow> Inl e
        | Inr mp \<Rightarrow>
            if initState < mp
            then Inr \<lparr>runningNorm = 1, qubitCount = qBitCount, maxQPower = mp,
                      stateVec = (replicate (unat mp) 0)[unat initState := phase angle]\<rparr>
            else Inl OutOfBounds)"

text \<open>
  The header's constructors. \<open>Register::Register(bitLenInt)\<close> has the guard;
  \<open>Register::Register(bitLenInt, bitCapInt)\<close> has none and fills the vector in a loop
  that compares each index with \<open>initState\<close>, so it never writes out of range.
\<close>

definition Register_new :: "bitLenInt \<Rightarrow> real \<Rightarrow> error + qregister" where
  "Register_new qBitCount rnd =
     (if qBitCount > 8 * 8 then Inl InvalidArgument
      else let angle = rnd * 2 * pi in
        case int_shl qBitCount of
          Inl e \<Rightarrow> Inl e
        | Inr mp \<Rightarrow>
            Inr \<lparr>runningNorm = 1, qubitCount = qBitCount, maxQPower = mp,
                 stateVec = phase angle # replicate (unat mp - 1) 0\<rparr>)"

definition Register_perm :: "bitLenInt \<Rightarrow> bitCapInt \<Rightarrow> real \<Rightarrow> error + qregister" where
  "Register_perm qBitCount initState rnd =
     (let angle = rnd * 2 * pi in
        case int_shl qBitCount of
          Inl e \<Rightarrow> Inl e
        | Inr mp \<Rightarrow>
            Inr \<lparr>runningNorm = 1, qubitCount = qBitCount, maxQPower = mp,
                 stateVec = map (\<lambda>lcv. if (of_nat lcv :: bitCapInt) = initState
                                        then phase angle else 0) [0..<unat mp]\<rparr>)"

text \<open>
  The copy constructors. \<open>std::copy(first, last, out)\<close> overwrites the first
  \<open>last - first\<close> elements of \<open>out\<close>. The header allocates
  \<open>new std::complex<double>[maxQPower]\<close>, whose elements are value-initialised to zero,
  and copies \<open>qubitCount\<close> elements; the OpenCL class copies \<open>maxQPower\<close> elements.
\<close>

definition std_copy :: "'a list \<Rightarrow> nat \<Rightarrow> 'a list \<Rightarrow> 'a list" where
  "std_copy src n out = take n src @ drop n out"

definition Register_copy :: "qregister \<Rightarrow> qregister" where
  "Register_copy pqs =
     \<lparr>runningNorm = runningNorm pqs, qubitCount = qubitCount pqs, maxQPower = maxQPower pqs,
      stateVec = std_copy (stateVec pqs) (qubitCount pqs)
                   (replicate (unat (maxQPower pqs)) 0)\<rparr>"

definition CoherentUnit_copy :: "complex list \<Rightarrow> qregister \<Rightarrow> qregister" where
  "CoherentUnit_copy fresh pqs =
     \<lparr>runningNorm = runningNorm pqs, qubitCount = qubitCount pqs, maxQPower = maxQPower pqs,
      stateVec = std_copy (stateVec pqs) (unat (maxQPower pqs)) fresh\<rparr>"

text \<open>
  The invariant every register built by a constructor satisfies: at most 30 qubits (the
  constructors' shift is undefined beyond), \<open>maxQPower = 2 ^ qubitCount\<close> and a
  state vector of that length.
\<close>

definition wf_reg :: "qregister \<Rightarrow> bool" where
  "wf_reg r \<longleftrightarrow> qubitCount r \<le> 30 \<and> maxQPower r = pow2 (qubitCount r)
          \<and> length (stateVec r) = 2 ^ qubitCount r"

section \<open>Norms and normalisation\<close>

text \<open>
  \<open>normSqrd\<close> is the header's helper of that name; the OpenCL class calls \<open>norm\<close>,
  the squared magnitude, for the same quantity.
\<close>

definition normSqrd :: "complex \<Rightarrow> real" where
  "normSqrd c = Re c * Re c + Im c * Im c"

text \<open>
  Modelled from the spec: \<open>par_norm\<close>, the parallel L2-norm reducer the OpenCL class
  calls in \<open>UpdateRunningNorm\<close>, is not among the sources. The spec describes it as the
  sum of \<open>|state_vec[i]|\<^sup>2\<close> over the vector, returning its square root. The header's
  \<open>UpdateRunningNorm\<close> is the same sum written as a loop.
\<close>

definition par_norm :: "bitCapInt \<Rightarrow> complex list \<Rightarrow> real" where
  "par_norm maxQ sv = sqrt (\<Sum>i<unat maxQ. normSqrd (sv ! i))"

definition UpdateRunningNorm :: "qregister \<Rightarrow> qregister" where
  "UpdateRunningNorm r = r\<lparr>runningNorm := par_norm (maxQPower r) (stateVec r)\<rparr>"

text \<open>
  Modelled from the spec: \<open>par_for_all\<close>, the host-side driver for per-amplitude
  mutation, is not among the sources. The spec: the body is executed exactly once for
  each index of the half-open range. The model runs the indices in ascending order.
\<close>

definition par_for_all :: "bitCapInt \<Rightarrow> bitCapInt \<Rightarrow> complex list
    \<Rightarrow> (bitCapInt \<Rightarrow> complex list \<Rightarrow> complex list) \<Rightarrow> complex list" where
  "par_for_all begin end sv fn = fold fn (map of_nat [unat begin..<unat end]) sv"

text \<open>
  \<open>NormalizeState\<close>: \<open>stateVec[lcv] /= runningNorm\<close> for every \<open>lcv\<close> below
  \<open>maxQPower\<close>, then \<open>runningNorm = 1.0\<close>.
\<close>

definition NormalizeState :: "qregister \<Rightarrow> qregister" where
  "NormalizeState r =
     r\<lparr>stateVec := par_for_all 0 (maxQPower r) (stateVec r)
                      (\<lambda>lcv sv. sv[unat lcv := sv ! unat lcv / complex_of_real (runningNorm r)]),
       runningNorm := 1\<rparr>"

text \<open>The guard \<open>if (runningNorm != 1.0) NormalizeState();\<close> that opens the reads.\<close>

definition normalize_if_needed :: "qregister \<Rightarrow> qregister" where
  "normalize_if_needed r = (if runningNorm r \<noteq> 1 then NormalizeState r else r)"

section \<open>Probability reads and measurement (OpenCL class)\<close>

definition Prob :: "bitLenInt \<Rightarrow> qregister \<Rightarrow> real \<times> qregister" where
  "Prob qubitIndex r =
     (let r1 = normalize_if_needed r;
          qPower = pow2 qubitIndex;
          oneChance = (\<Sum>lcv<unat (maxQPower r1).
                         if (of_nat lcv AND qPower) = qPower
                         then normSqrd (stateVec r1 ! lcv) else 0)
      in (oneChance, r1))"

definition ProbAll :: "bitCapInt \<Rightarrow> qregister \<Rightarrow> real \<times> qregister" where
  "ProbAll fullRegister r =
     (let r1 = normalize_if_needed r in (normSqrd (stateVec r1 ! unat fullRegister), r1))"

definition ProbArray :: "qregister \<Rightarrow> real list \<times> qregister" where
  "ProbArray r =
     (let r1 = normalize_if_needed r
      in (map (\<lambda>lcv. normSqrd (stateVec r1 ! lcv)) [0..<unat (maxQPower r1)], r1))"

definition CloneRawState :: "complex list \<Rightarrow> qregister \<Rightarrow> complex list \<times> qregister" where
  "CloneRawState output r =
     (let r1 = normalize_if_needed r
      in (std_copy (stateVec r1) (unat (maxQPower r1)) output, r1))"

text \<open>
  \<open>CoherentUnit::M\<close>. \<open>prob\<close> and \<open>rnd\<close> are the two values of \<open>Rand()\<close>, in the
  order drawn. The result is the returned Boolean and the register after the call.
\<close>

definition M :: "bitLenInt \<Rightarrow> real \<Rightarrow> real \<Rightarrow> qregister \<Rightarrow> bool \<times> qregister" where
  "M qubitIndex prob rnd r =
     (let r1 = normalize_if_needed r;
          angle = rnd * 2 * pi;
          cosine = cos angle;
          sine = sin angle;
          qPower = pow2 qubitIndex;
          (oneChance, r2) = Prob qubitIndex r1;
          result = (prob < oneChance \<and> oneChance > 0);
          sv' =
            (if result then
               let nrmlzr = (if oneChance > 0 then oneChance else 1);
                   nrm = Complex cosine sine / complex_of_real nrmlzr
               in par_for_all 0 (maxQPower r2) (stateVec r2)
                    (\<lambda>lcv sv. if (lcv AND qPower) = 0
                               then sv[unat lcv := 0]
                               else sv[unat lcv := nrm * sv ! unat lcv])
             else
               let nrmlzr = (if oneChance < 1 then sqrt (1 - oneChance) else 1);
                   nrm = Complex cosine sine / complex_of_real nrmlzr
               in par_for_all 0 (maxQPower r2) (stateVec r2)
                    (\<lambda>lcv sv. if (lcv AND qPower) = 0
                               then sv[unat lcv := nrm * sv ! unat lcv]
                               else sv[unat lcv := 0]))
      in (result, UpdateRunningNorm (r2\<lparr>stateVec := sv'\<rparr>)))"

section \<open>The apply2x2 kernel and the single-qubit gates (OpenCL class)\<close>

text \<open>
  The kernel's complex product \<open>zmul\<close>, on \<open>double2\<close> values with \<open>x\<close> the real and
  \<open>y\<close> the imaginary part, as the kernel source writes it.
\<close>

definition zmul :: "complex \<Rightarrow> complex \<Rightarrow> complex" where
  "zmul lhs rhs =
     Complex (Re lhs * Im rhs + Re rhs * Im lhs) (Im lhs * (- Im rhs) + Re rhs * Re lhs)"

text \<open>
  The kernel's expansion of the counter \<open>lcv\<close> into an index with a zero at every
  sorted qubit power: the loop over \<open>p\<close> followed by \<open>i += iHigh\<close>.
\<close>

fun insert_bits :: "bitCapInt list \<Rightarrow> bitCapInt \<Rightarrow> bitCapInt \<Rightarrow> bitCapInt" where
  "insert_bits [] iHigh i = i + iHigh"
| "insert_bits (p # ps) iHigh i =
     (let iLow = iHigh mod p in insert_bits ps (push_bit 1 (iHigh - iLow)) (i + iLow))"

text \<open>
  One pass of the kernel's \<open>while\<close> body on the pair at \<open>i + offset1\<close> and
  \<open>i + offset2\<close>; \<open>None\<close> when an index is outside the buffer.
\<close>

definition apply2x2_body :: "complex list \<Rightarrow> complex \<Rightarrow> bitCapInt \<Rightarrow> bitCapInt \<Rightarrow> bitCapInt
    \<Rightarrow> complex list \<Rightarrow> complex list option" where
  "apply2x2_body mtrx nrm offset1 offset2 i sv =
     (if unat (i + offset1) < length sv \<and> unat (i + offset2) < length sv then
        let qubit0 = sv ! unat (i + offset1);
            qubit1 = sv ! unat (i + offset2);
            Y0 = qubit0;
            qubit0' = zmul nrm (zmul (mtrx ! 0) Y0 + zmul (mtrx ! 1) qubit1);
            qubit1' = zmul nrm (zmul (mtrx ! 2) Y0 + zmul (mtrx ! 3) qubit1)
        in Some (sv[unat (i + offset1) := qubit0', unat (i + offset2) := qubit1'])
      else None)"

text \<open>
  The kernel's loop \<open>while (i < maxI)\<close>, with the work items run one after the other
  (\<open>lcv\<close> counts up by one). The loop has no bound of its own, so the model is a partial
  function: \<open>None\<close> stands for a run that does not end or leaves the buffer.
\<close>

partial_function (option) apply2x2_loop :: "complex list \<Rightarrow> complex \<Rightarrow> bitCapInt \<Rightarrow> bitCapInt
    \<Rightarrow> bitCapInt \<Rightarrow> bitCapInt list \<Rightarrow> bitCapInt \<Rightarrow> complex list \<Rightarrow> complex list option" where
  "apply2x2_loop mtrx nrm maxI offset1 offset2 qPowersSorted lcv sv =
     (if insert_bits qPowersSorted lcv 0 < maxI then
        (case apply2x2_body mtrx nrm offset1 offset2 (insert_bits qPowersSorted lcv 0) sv of
           None \<Rightarrow> None
         | Some sv' \<Rightarrow> apply2x2_loop mtrx nrm maxI offset1 offset2 qPowersSorted (lcv + 1) sv')
      else Some sv)"

text \<open>The kernel entry: it unpacks the two parameter arrays the host marshalled.\<close>

definition apply2x2 :: "complex list \<Rightarrow> complex list \<Rightarrow> bitCapInt list \<Rightarrow> complex list option" where
  "apply2x2 sv cmplxPtr ulongPtr =
     (let nrm = cmplxPtr ! 4;
          bitCount = ulongPtr ! 0;
          maxI = ulongPtr ! 1;
          offset1 = ulongPtr ! 2;
          offset2 = ulongPtr ! 3;
          qPowersSorted = take (unat bitCount) (drop 4 ulongPtr)
      in apply2x2_loop cmplxPtr nrm maxI offset1 offset2 qPowersSorted 0 sv)"

text \<open>\<open>CoherentUnit::Apply2x2\<close>: the host side.\<close>

definition Apply2x2 :: "bitCapInt \<Rightarrow> bitCapInt \<Rightarrow> complex list \<Rightarrow> nat \<Rightarrow> bitCapInt list
    \<Rightarrow> bool \<Rightarrow> bool \<Rightarrow> qregister \<Rightarrow> qregister option" where
  "Apply2x2 offset1 offset2 mtrx bitCount qPowersSorted doApplyNorm doCalcNorm r =
     (let cmplx = take 4 mtrx @ [Complex (if doApplyNorm then 1 / runningNorm r else 1) 0];
          ulong = [of_nat bitCount, maxQPower r, offset1, offset2]
                    @ take bitCount qPowersSorted @ replicate (6 - bitCount) 0
      in case apply2x2 (stateVec r) cmplx ulong of
           None \<Rightarrow> None
         | Some sv \<Rightarrow>
             Some (if doCalcNorm then UpdateRunningNorm (r\<lparr>stateVec := sv\<rparr>)
                   else r\<lparr>stateVec := sv, runningNorm := 1\<rparr>))"

definition ApplySingleBit :: "bitLenInt \<Rightarrow> complex list \<Rightarrow> bool \<Rightarrow> qregister \<Rightarrow> qregister option" where
  "ApplySingleBit qubitIndex mtrx doCalcNorm r =
     (let qPowers = [pow2 qubitIndex]
      in Apply2x2 (qPowers ! 0) 0 mtrx 1 qPowers True doCalcNorm r)"

definition X :: "bitLenInt \<Rightarrow> qregister \<Rightarrow> qregister option" where
  "X qubitIndex r = ApplySingleBit qubitIndex [0, 1, 1, 0] False r"

definition R1 :: "real \<Rightarrow> bitLenInt \<Rightarrow> qregister \<Rightarrow> qregister option" where
  "R1 radians qubitIndex r =
     (let cosine = cos (radians / 2); sine = sin (radians / 2)
      in ApplySingleBit qubitIndex [Complex 1 0, Complex 0 0, Complex 0 0, Complex cosine sine]
           True r)"

definition R1Dyad :: "int \<Rightarrow> int \<Rightarrow> bitLenInt \<Rightarrow> qregister \<Rightarrow> qregister option" where
  "R1Dyad numerator denominator qubitIndex r =
     R1 ((pi * real_of_int numerator * 2) / real_of_int denominator) qubitIndex r"

definition RX :: "real \<Rightarrow> bitLenInt \<Rightarrow> qregister \<Rightarrow> qregister option" where
  "RX radians qubitIndex r =
     (let cosine = cos (radians / 2); sine = sin (radians / 2)
      in ApplySingleBit qubitIndex
           [Complex cosine 0, Complex 0 (- sine), Complex 0 (- sine), Complex cosine 0] True r)"

definition RXDyad :: "int \<Rightarrow> int \<Rightarrow> bitLenInt \<Rightarrow> qregister \<Rightarrow> qregister option" where
  "RXDyad numerator denominator qubitIndex r =
     RX ((- pi * real_of_int numerator * 2) / real_of_int denominator) qubitIndex r"

definition RY :: "real \<Rightarrow> bitLenInt \<Rightarrow> qregister \<Rightarrow> qregister option" where
  "RY radians qubitIndex r =
     (let cosine = cos (radians / 2); sine = sin (radians / 2)
      in ApplySingleBit qubitIndex
           [Complex cosine 0, Complex (- sine) 0, Complex sine 0, Complex cosine 0] True r)"

definition RYDyad :: "int \<Rightarrow> int \<Rightarrow> bitLenInt \<Rightarrow> qregister \<Rightarrow> qregister option" where
  "RYDyad numerator denominator qubitIndex r =
     RY ((- pi * real_of_int numerator * 2) / real_of_int denominator) qubitIndex r"

definition RZ :: "real \<Rightarrow> bitLenInt \<Rightarrow> qregister \<Rightarrow> qregister option" where
  "RZ radians qubitIndex r =
     (let cosine = cos (radians / 2); sine = sin (radians / 2)
      in ApplySingleBit qubitIndex
           [Complex cosine (- sine), Complex 0 0, Complex 0 0, Complex cosine sine] True r)"

definition RZDyad :: "int \<Rightarrow> int \<Rightarrow> bitLenInt \<Rightarrow> qregister \<Rightarrow> qregister option" where
  "RZDyad numerator denominator qubitIndex r =
     RZ ((- pi * real_of_int numerator * 2) / real_of_int denominator) qubitIndex r"

text \<open>
  \<open>CoherentUnit::SetBit\<close>: \<open>if (value != M(qubitIndex1)) X(qubitIndex1);\<close>. The two
  random draws are those of \<open>M\<close>.
\<close>

definition SetBit :: "bitLenInt \<Rightarrow> bool \<Rightarrow> real \<Rightarrow> real \<Rightarrow> qregister \<Rightarrow> qregister option" where
  "SetBit qubitIndex1 val prob rnd r =
     (let (res, r1) = M qubitIndex1 prob rnd r
      in if val \<noteq> res then X qubitIndex1 r1 else Some r1)"

section \<open>Scatter kernels\<close>

text \<open>
  The permutation kernels read \<open>stateVec[lcv]\<close> for every \<open>lcv\<close> below \<open>maxI\<close> and
  store it at a computed index of a freshly allocated buffer. \<open>scatter\<close> is that loop,
  with the work items run in ascending order of \<open>lcv\<close>; a store or a read outside the
  buffers (undefined in the source) is reported as \<open>OutOfBounds\<close>. The content of the
  fresh buffer before the kernel runs is the argument \<open>fresh\<close> of each operation.
\<close>

fun scatter :: "(nat \<Rightarrow> nat) \<Rightarrow> nat list \<Rightarrow> 'a list \<Rightarrow> 'a list \<Rightarrow> error + 'a list" where
  "scatter dest [] src out = Inr out"
| "scatter dest (lcv # rest) src out =
     (if dest lcv < length out \<and> lcv < length src
      then scatter dest rest src (out[dest lcv := src ! lcv])
      else Inl OutOfBounds)"

text \<open>
  Modelled from the spec: \<open>par_for_copy\<close>, the host-side driver of the copy bodies, is
  not among the sources. The spec: the body runs once for each index of the range,
  reads only from the source buffer and scatter-writes to the destination. Every body in
  the sources is a single store \<open>nStateVec[index] = stateVec[lcv]\<close>, so the driver is
  given the index computation.
\<close>

definition par_for_copy :: "bitCapInt \<Rightarrow> bitCapInt \<Rightarrow> complex list \<Rightarrow> complex list
    \<Rightarrow> (bitCapInt \<Rightarrow> bitCapInt) \<Rightarrow> error + complex list" where
  "par_for_copy begin end sv nStateVec index =
     scatter (\<lambda>lcv. unat (index (of_nat lcv))) [unat begin..<unat end] sv nStateVec"

text \<open>
  The host loops \<open>for (i = 0; i < length; i++) mask += 1 << (start + i);\<close> that build
  the bit masks of a qubit range.
\<close>

definition range_mask :: "bitLenInt \<Rightarrow> bitLenInt \<Rightarrow> bitCapInt" where
  "range_mask start len = fold (\<lambda>i m. m + pow2 (start + i)) [0..<len] 0"

text \<open>\<open>CoherentUnit::X(bitLenInt start, bitLenInt length)\<close>.\<close>

definition X_index :: "bitCapInt list \<Rightarrow> bitCapInt \<Rightarrow> bitCapInt" where
  "X_index bciArgs lcv =
     (let otherRes = lcv AND bciArgs ! 1;
          inOutRes = (NOT lcv) AND bciArgs ! 0
      in inOutRes OR otherRes)"

definition X_range :: "bitLenInt \<Rightarrow> bitLenInt \<Rightarrow> complex list \<Rightarrow> qregister \<Rightarrow> error + qregister" where
  "X_range start len fresh r =
     (let inOutMask = range_mask start len;
          otherMask = (pow2 (qubitCount r) - 1) - inOutMask;
          bciArgs = [inOutMask, otherMask]
      in case par_for_copy 0 (maxQPower r) (stateVec r) fresh (X_index bciArgs) of
           Inl e \<Rightarrow> Inl e
         | Inr nStateVec \<Rightarrow> Inr (r\<lparr>stateVec := nStateVec\<rparr>))"

text \<open>
  In the words of claim C10: the index obtained from \<open>i\<close> by complementing exactly the
  bits in positions \<open>[start, start + len)\<close>.
\<close>

definition flip_bits :: "nat \<Rightarrow> nat \<Rightarrow> nat \<Rightarrow> nat" where
  "flip_bits start len i = i XOR push_bit start (mask len)"

text \<open>
  Shifts inside the OpenCL kernels: OpenCL C takes the shift count of a 64-bit operand
  modulo 64.
\<close>

definition cl_shl :: "bitCapInt \<Rightarrow> bitCapInt \<Rightarrow> bitCapInt" where
  "cl_shl x s = push_bit (unat s mod 64) x"

definition cl_shr :: "bitCapInt \<Rightarrow> bitCapInt \<Rightarrow> bitCapInt" where
  "cl_shr x s = drop_bit (unat s mod 64) x"

text \<open>The index computations of the kernels \<open>rol\<close> and \<open>ror\<close>.\<close>

definition rol_index :: "bitCapInt list \<Rightarrow> bitCapInt \<Rightarrow> bitCapInt" where
  "rol_index ulongPtr lcv =
     (let regMask = ulongPtr ! 1;
          otherMask = ulongPtr ! 2;
          lengthMask = ulongPtr ! 3 - 1;
          start = ulongPtr ! 4;
          shift = ulongPtr ! 5;
          len = ulongPtr ! 6;
          otherRes = lcv AND otherMask;
          regRes = lcv AND regMask;
          regInt = cl_shr regRes start;
          outInt = cl_shr regInt (len - shift) OR (cl_shl regInt shift AND lengthMask)
      in cl_shl outInt start + otherRes)"

definition ror_index :: "bitCapInt list \<Rightarrow> bitCapInt \<Rightarrow> bitCapInt" where
  "ror_index ulongPtr lcv =
     (let regMask = ulongPtr ! 1;
          otherMask = ulongPtr ! 2;
          lengthMask = ulongPtr ! 3 - 1;
          start = ulongPtr ! 4;
          shift = ulongPtr ! 5;
          len = ulongPtr ! 6;
          otherRes = lcv AND otherMask;
          regRes = lcv AND regMask;
          regInt = cl_shr regRes start;
          outInt = (cl_shr regInt shift AND lengthMask) OR cl_shl regInt (len - shift)
      in cl_shl outInt start + otherRes)"

definition run_kernel :: "(bitCapInt list \<Rightarrow> bitCapInt \<Rightarrow> bitCapInt) \<Rightarrow> bitCapInt list
    \<Rightarrow> complex list \<Rightarrow> complex list \<Rightarrow> error + complex list" where
  "run_kernel index ulongPtr sv nStateVec =
     scatter (\<lambda>lcv. unat (index ulongPtr (of_nat lcv))) [0..<unat (ulongPtr ! 0)] sv nStateVec"

text \<open>\<open>CoherentUnit::ROL\<close> and \<open>CoherentUnit::ROR\<close>: the host side.\<close>

definition rotate_args :: "bitLenInt \<Rightarrow> bitLenInt \<Rightarrow> bitLenInt \<Rightarrow> qregister \<Rightarrow> bitCapInt list" where
  "rotate_args shift start len r =
     (let regMask = range_mask start len;
          otherMask = (pow2 (qubitCount r) - 1) - regMask;
          lengthPower = pow2 len
      in [maxQPower r, regMask, otherMask, lengthPower, of_nat start, of_nat shift, of_nat len,
          0, 0, 0])"

definition ROL :: "bitLenInt \<Rightarrow> bitLenInt \<Rightarrow> bitLenInt \<Rightarrow> complex list \<Rightarrow> qregister
    \<Rightarrow> error + qregister" where
  "ROL shift start len fresh r =
     (case run_kernel rol_index (rotate_args shift start len r) (stateVec r) fresh of
        Inl e \<Rightarrow> Inl e
      | Inr nStateVec \<Rightarrow> Inr (r\<lparr>stateVec := nStateVec\<rparr>))"

definition ROR :: "bitLenInt \<Rightarrow> bitLenInt \<Rightarrow> bitLenInt \<Rightarrow> complex list \<Rightarrow> qregister
    \<Rightarrow> error + qregister" where
  "ROR shift start len fresh r =
     (case run_kernel ror_index (rotate_args shift start len r) (stateVec r) fresh of
        Inl e \<Rightarrow> Inl e
      | Inr nStateVec \<Rightarrow> Inr (r\<lparr>stateVec := nStateVec\<rparr>))"

section \<open>BCD addition\<close>

text \<open>
  The kernel \<open>addbcd\<close>. The literal \<open>15\<close> is an \<open>int\<close>, so \<open>15 << (j * 4)\<close> is a
  32-bit shift (count taken modulo 32) whose result is sign-extended when it meets the
  64-bit operand; \<open>test1\<close>, \<open>test2\<close> and the nibbles are \<open>uchar\<close>.
\<close>

definition nibble_mask :: "bitCapInt \<Rightarrow> bitCapInt" where
  "nibble_mask j = scast (push_bit (unat (j * 4) mod 32) (15 :: 32 word))"

text \<open>The first loop over \<open>j\<close>: it fills \<open>nibbles[j]\<close> and clears \<open>isValid\<close>.\<close>

fun addbcd_test :: "bitCapInt \<Rightarrow> bitCapInt \<Rightarrow> nat list \<Rightarrow> 8 word list \<times> bool
    \<Rightarrow> 8 word list \<times> bool" where
  "addbcd_test inOutInt inInt [] st = st"
| "addbcd_test inOutInt inInt (j # js) (nibbles, isValid) =
     (let test1 = (ucast (inOutInt AND nibble_mask (of_nat j)) :: 8 word);
          test2 = (ucast (inInt AND nibble_mask (of_nat j)) :: 8 word)
      in addbcd_test inOutInt inInt js
           (nibbles[j := test1 + test2], if test1 > 9 \<or> test2 > 9 then False else isValid))"

text \<open>
  The second loop over \<open>j\<close>: decimal carry into the next nibble, and
  \<open>outInt |= nibbles[j] << (j * 4)\<close> (the nibble promoted to \<open>int\<close>).
\<close>

fun addbcd_carry :: "nat \<Rightarrow> nat list \<Rightarrow> 8 word list \<times> bitCapInt \<Rightarrow> 8 word list \<times> bitCapInt" where
  "addbcd_carry nibbleCount [] st = st"
| "addbcd_carry nibbleCount (j # js) (nibbles, outInt) =
     (let nibbles1 =
            (if nibbles ! j > 9
             then (let n1 = nibbles[j := nibbles ! j - 10]
                   in if j + 1 < nibbleCount then n1[j + 1 := n1 ! (j + 1) + 1] else n1)
             else nibbles);
          shifted = (scast (push_bit ((j * 4) mod 32) (ucast (nibbles1 ! j) :: 32 word)) :: bitCapInt)
      in addbcd_carry nibbleCount js (nibbles1, outInt OR shifted))"

definition addbcd_index :: "bitCapInt list \<Rightarrow> bitCapInt \<Rightarrow> bitCapInt" where
  "addbcd_index ulongPtr lcv =
     (let inOutMask = ulongPtr ! 1;
          inMask = ulongPtr ! 2;
          otherMask = ulongPtr ! 3;
          inOutStart = ulongPtr ! 5;
          inStart = ulongPtr ! 6;
          nibbleCount = unat (ulongPtr ! 9);
          otherRes = lcv AND otherMask
      in if otherRes = lcv then lcv
         else
           let inOutRes = lcv AND inOutMask;
               inOutInt = cl_shr inOutRes inOutStart;
               inRes = lcv AND inMask;
               inInt = cl_shr inRes inStart;
               (nibbles, isValid) =
                  addbcd_test inOutInt inInt [0..<nibbleCount] (replicate 8 0, True)
           in if isValid
              then let (nibbles', outInt) = addbcd_carry nibbleCount [0..<nibbleCount] (nibbles, 0)
                   in cl_shl outInt inOutStart OR otherRes OR inRes
              else lcv)"

text \<open>
  \<open>CoherentUnit::ADDBCD\<close>: the host side. The two masks are built in one loop; the
  nibble count is the eighth entry (index 7) of the parameter array.
\<close>

definition ADDBCD :: "bitLenInt \<Rightarrow> bitLenInt \<Rightarrow> bitLenInt \<Rightarrow> complex list \<Rightarrow> qregister
    \<Rightarrow> error + qregister" where
  "ADDBCD inOutStart inStart len fresh r =
     (let nibbleCount = len div 4 in
      if nibbleCount * 4 \<noteq> len then Inl InvalidArgument
      else
        let inOutMask = range_mask inOutStart len;
            inMask = range_mask inStart len;
            otherMask = (pow2 (qubitCount r) - 1) - (inOutMask + inMask);
            lengthPower = pow2 len;
            bciArgs = [maxQPower r, inOutMask, inMask, otherMask, lengthPower,
                       of_nat inOutStart, of_nat inStart, of_nat nibbleCount, 0, 0]
        in case run_kernel addbcd_index bciArgs (stateVec r) fresh of
             Inl e \<Rightarrow> Inl e
           | Inr nStateVec \<Rightarrow> Inr (r\<lparr>stateVec := nStateVec\<rparr>))"

section \<open>Cohere\<close>

text \<open>
  \<open>CoherentUnit::Cohere\<close>. Both registers are passed and returned: the argument is a
  non-const reference and the code normalises it in place. The masks are the sums the
  two host loops build.
\<close>

definition Cohere :: "real \<Rightarrow> qregister \<Rightarrow> qregister \<Rightarrow> qregister \<times> qregister" where
  "Cohere rnd r toCopy =
     (let r1 = normalize_if_needed r;
          toCopy1 = normalize_if_needed toCopy;
          nQubitCount = qubitCount r1 + qubitCount toCopy1;
          nMaxQPower = pow2 nQubitCount;
          startMask = fold (\<lambda>i m. m + pow2 i) [0..<qubitCount r1] 0;
          endMask = fold (\<lambda>i m. m + pow2 i) [qubitCount r1..<nQubitCount] 0;
          angle = rnd * 2 * pi;
          phaseFac = Complex (cos angle) (sin angle);
          nStateVec =
            map (\<lambda>i. phaseFac * complex_of_real
                   (sqrt (normSqrd (stateVec r1 ! unat (of_nat i AND startMask))
                          * normSqrd (stateVec toCopy1
                               ! unat (drop_bit (qubitCount r1) (of_nat i AND endMask))))))
                [0..<unat nMaxQPower]
      in (UpdateRunningNorm
            (r1\<lparr>stateVec := nStateVec, qubitCount := nQubitCount,
                 maxQPower := pow2 nQubitCount\<rparr>),
          toCopy1))"

section \<open>The header-only class\<close>

text \<open>
  \<open>par_for\<close> (par_for.hpp): every index of the range is handed to the body once. The
  model runs them in ascending order and stops with \<open>None\<close> when the body leaves the
  buffer.
\<close>

fun run_each :: "(nat \<Rightarrow> 's \<Rightarrow> 's option) \<Rightarrow> nat list \<Rightarrow> 's \<Rightarrow> 's option" where
  "run_each fn [] st = Some st"
| "run_each fn (i # rest) st = (case fn i st of None \<Rightarrow> None | Some st' \<Rightarrow> run_each fn rest st')"

definition par_for :: "bitCapInt \<Rightarrow> bitCapInt \<Rightarrow> (nat \<Rightarrow> 's \<Rightarrow> 's option) \<Rightarrow> 's \<Rightarrow> 's option" where
  "par_for begin end fn st = run_each fn [unat begin..<unat end] st"

text \<open>\<open>Register::Apply2x2\<close>: the lambda handed to \<open>par_for\<close>, then the norm update.\<close>

definition Register_pair :: "complex list \<Rightarrow> complex \<Rightarrow> bitCapInt \<Rightarrow> nat \<Rightarrow> complex list
    \<Rightarrow> complex list option" where
  "Register_pair mtrx nrm qPower lcv sv =
     (if (of_nat lcv AND qPower) = 0 then
        (if unat (of_nat lcv + qPower) < length sv \<and> lcv < length sv then
           let qubit0 = sv ! unat (of_nat lcv + qPower);
               qubit1 = sv ! lcv;
               Y0 = qubit0;
               qubit0' = nrm * (mtrx ! 0 * Y0 + mtrx ! 1 * qubit1);
               qubit1' = nrm * (mtrx ! 2 * Y0 + mtrx ! 3 * qubit1)
           in Some (sv[unat (of_nat lcv + qPower) := qubit0', lcv := qubit1'])
         else None)
      else Some sv)"

definition Register_Apply2x2 :: "bitLenInt \<Rightarrow> complex list \<Rightarrow> qregister \<Rightarrow> qregister option" where
  "Register_Apply2x2 qubitIndex mtrx r =
     (let qPower = pow2 qubitIndex
      in case par_for 0 (maxQPower r)
                (Register_pair mtrx (Complex (1 / runningNorm r) 0) qPower) (stateVec r) of
           None \<Rightarrow> None
         | Some sv \<Rightarrow> Some (UpdateRunningNorm (r\<lparr>stateVec := sv\<rparr>)))"

definition Register_R1 :: "real \<Rightarrow> bitLenInt \<Rightarrow> qregister \<Rightarrow> qregister option" where
  "Register_R1 radians qubitIndex r =
     (let cosine = cos radians; sine = sin radians
      in Register_Apply2x2 qubitIndex
           [Complex 1 0, Complex 0 0, Complex 0 0, Complex cosine sine] r)"

definition Register_R1Dyad :: "int \<Rightarrow> int \<Rightarrow> bitLenInt \<Rightarrow> qregister \<Rightarrow> qregister option" where
  "Register_R1Dyad numerator denominator qubitIndex r =
     Register_R1 ((pi * real_of_int numerator) / real_of_int denominator) qubitIndex r"

definition Register_RX :: "real \<Rightarrow> bitLenInt \<Rightarrow> qregister \<Rightarrow> qregister option" where
  "Register_RX radians qubitIndex r =
     (let cosine = cos (radians / 2); sine = sin (radians / 2)
      in Register_Apply2x2 qubitIndex
           [Complex cosine 0, Complex 0 (- sine), Complex 0 (- sine), Complex cosine 0] r)"

definition Register_RXDyad :: "int \<Rightarrow> int \<Rightarrow> bitLenInt \<Rightarrow> qregister \<Rightarrow> qregister option" where
  "Register_RXDyad numerator denominator qubitIndex r =
     Register_RX ((- pi * real_of_int numerator) / real_of_int denominator) qubitIndex r"

definition Register_RY :: "real \<Rightarrow> bitLenInt \<Rightarrow> qregister \<Rightarrow> qregister option" where
  "Register_RY radians qubitIndex r =
     (let cosine = cos (radians / 2); sine = sin (radians / 2)
      in Register_Apply2x2 qubitIndex
           [Complex cosine 0, Complex (- sine) 0, Complex sine 0, Complex cosine 0] r)"

definition Register_RYDyad :: "int \<Rightarrow> int \<Rightarrow> bitLenInt \<Rightarrow> qregister \<Rightarrow> qregister option" where
  "Register_RYDyad numerator denominator qubitIndex r =
     Register_RY ((- pi * real_of_int numerator) / real_of_int denominator) qubitIndex r"

definition Register_RZ :: "real \<Rightarrow> bitLenInt \<Rightarrow> qregister \<Rightarrow> qregister option" where
  "Register_RZ radians qubitIndex r =
     (let cosine = cos (radians / 2); sine = sin (radians / 2)
      in Register_Apply2x2 qubitIndex
           [Complex cosine (- sine), Complex 0 0, Complex 0 0, Complex cosine sine] r)"

definition Register_RZDyad :: "int \<Rightarrow> int \<Rightarrow> bitLenInt \<Rightarrow> qregister \<Rightarrow> qregister option" where
  "Register_RZDyad numerator denominator qubitIndex r =
     Register_RZ ((- pi * real_of_int numerator) / real_of_int denominator) qubitIndex r"

text \<open>
  \<open>Register::ProbAll\<close> and \<open>Register::MAll\<close>. \<open>MAll\<close> reads \<open>stateVec[fullRegister]\<close>
  as it stands; \<open>prob\<close> and \<open>rnd\<close> are its two draws. It leaves \<open>runningNorm\<close> as it
  was.
\<close>

definition Register_ProbAll :: "bitCapInt \<Rightarrow> qregister \<Rightarrow> real \<times> qregister" where
  "Register_ProbAll fullRegister r =
     (let r1 = normalize_if_needed r in (normSqrd (stateVec r1 ! unat fullRegister), r1))"

definition Register_MAll :: "bitCapInt \<Rightarrow> real \<Rightarrow> real \<Rightarrow> qregister \<Rightarrow> error + bool \<times> qregister" where
  "Register_MAll fullRegister prob rnd r =
     (if unat fullRegister < length (stateVec r) then
        let angle = rnd * 2 * pi;
            cosine = cos angle;
            sine = sin angle;
            toTest = stateVec r ! unat fullRegister;
            oneChance = Re toTest * Re toTest + Im toTest * Im toTest;
            result = (prob < oneChance);
            maxPower = pow2 (qubitCount r);
            sv' =
              (if result then
                 map (\<lambda>lcv. if (of_nat lcv :: bitCapInt) = fullRegister
                            then Complex cosine sine else Complex 0 0)
                     [0..<unat maxPower]
               else
                 let nrmlzr = sqrt (1 - oneChance)
                 in map (\<lambda>lcv. if (of_nat lcv :: bitCapInt) = fullRegister
                               then Complex 0 0
                               else Complex (cosine * Re (stateVec r ! lcv)
                                              - sine * Im (stateVec r ! lcv))
                                            (sine * Re (stateVec r ! lcv)
                                              + cosine * Im (stateVec r ! lcv))
                                    / complex_of_real nrmlzr)
                        [0..<unat maxPower])
        in Inr (result, r\<lparr>stateVec := sv'\<rparr>)
      else Inl OutOfBounds)"

text \<open>
  \<open>Register::M\<close>. The test of the first loop is written \<open>lcv & qPower == 0\<close>, which
  C++ reads as \<open>lcv & (qPower == 0)\<close>: the comparison yields 0 or 1 and is then
  and-ed with \<open>lcv\<close>. The body computes the Boolean \<open>result\<close>, accumulates the squared
  magnitudes of the amplitudes it keeps into \<open>runningNorm\<close>, and ends without a
  \<open>return\<close> statement, so the function hands no value back; the model yields the
  register the body leaves. \<open>prob\<close> and \<open>rnd\<close> are the two draws.
\<close>

definition Register_M :: "bitLenInt \<Rightarrow> real \<Rightarrow> real \<Rightarrow> qregister \<Rightarrow> qregister" where
  "Register_M qubitIndex prob rnd r =
     (let r1 = normalize_if_needed r;
          angle = rnd * 2 * pi;
          cosine = cos angle;
          sine = sin angle;
          qPower = pow2 qubitIndex;
          zeroChance = (\<Sum>lcv<unat (maxQPower r1).
                          if (of_nat lcv AND (if qPower = 0 then 1 else 0 :: bitCapInt)) \<noteq> 0
                          then normSqrd (stateVec r1 ! lcv) else 0);
          result = (prob \<ge> zeroChance);
          rot = (\<lambda>lcv. Complex (cosine * Re (stateVec r1 ! lcv) - sine * Im (stateVec r1 ! lcv))
                              (sine * Re (stateVec r1 ! lcv) + cosine * Im (stateVec r1 ! lcv)))
      in if result then
           let nrmlzr = (if zeroChance < 1 then sqrt (1 - zeroChance) else 1);
               sv' = map (\<lambda>lcv. if (of_nat lcv AND qPower) = 0 then Complex 0 0
                                else rot lcv / complex_of_real nrmlzr)
                         [0..<unat (maxQPower r1)];
               sqrNorm = (\<Sum>lcv<unat (maxQPower r1).
                            if (of_nat lcv AND qPower) = 0 then 0 else normSqrd (sv' ! lcv))
           in r1\<lparr>stateVec := sv', runningNorm := sqrt sqrNorm\<rparr>
         else
           let nrmlzr = (if zeroChance > 0 then sqrt zeroChance else 1);
               sv' = map (\<lambda>lcv. if (of_nat lcv AND qPower) = 0
                                then rot lcv / complex_of_real nrmlzr else Complex 0 0)
                         [0..<unat (maxQPower r1)];
               sqrNorm = (\<Sum>lcv<unat (maxQPower r1).
                            if (of_nat lcv AND qPower) = 0 then normSqrd (sv' ! lcv) else 0)
           in r1\<lparr>stateVec := sv', runningNorm := sqrt sqrNorm\<rparr>)"

text \<open>
  \<open>Register::X\<close> and \<open>Register::SetBit\<close>:
  \<open>if (value != M(qubitIndex1)) X(qubitIndex1);\<close>. Since \<open>M\<close> returns nothing, the
  value the comparison reads is not determined by the program; it is the argument
  \<open>ret\<close>.
\<close>

definition Register_X :: "bitLenInt \<Rightarrow> qregister \<Rightarrow> qregister option" where
  "Register_X qubitIndex r =
     Register_Apply2x2 qubitIndex [Complex 0 0, Complex 1 0, Complex 1 0, Complex 0 0] r"

definition Register_SetBit :: "bitLenInt \<Rightarrow> bool \<Rightarrow> bool \<Rightarrow> real \<Rightarrow> real \<Rightarrow> qregister
    \<Rightarrow> qregister option" where
  "Register_SetBit qubitIndex1 val ret prob rnd r =
     (let r1 = Register_M qubitIndex1 prob rnd r
      in if val \<noteq> ret then Register_X qubitIndex1 r1 else Some r1)"

section \<open>Auxiliary notions for the proofs\<close>

text \<open>
  The kernel \<open>apply2x2\<close> with one qubit power \<open>2 ^ q\<close> turns its counter \<open>l\<close> into
  the index \<open>expand_at q l\<close>, which has a zero inserted at bit \<open>q\<close>; \<open>compress_at\<close>
  removes bit \<open>q\<close> again.
\<close>

definition expand_at :: "nat \<Rightarrow> nat \<Rightarrow> nat" where
  "expand_at q l = take_bit q l + push_bit (Suc q) (drop_bit q l)"

definition compress_at :: "nat \<Rightarrow> nat \<Rightarrow> nat" where
  "compress_at q k = take_bit q k + push_bit q (drop_bit (Suc q) k)"

text \<open>
  The sum of the squared magnitudes over the indices below \<open>2 ^ n\<close> that satisfy
  \<open>P\<close>: the probability mass of a set of basis states.
\<close>

definition sq_sum :: "(nat \<Rightarrow> bool) \<Rightarrow> nat \<Rightarrow> complex list \<Rightarrow> real" where
  "sq_sum P n sv = (\<Sum>k<2 ^ n. if P k then normSqrd (sv ! k) else 0)"

section \<open>Evaluation helpers\<close>

lemma upt_0_2: "[0..<2] = [0, 1]"
  by (simp add: upt_rec numeral_eq_Suc)

lemma lessThan_2: "{..<2::nat} = {0, 1}"
  by auto

lemma sqrt_16_25: "sqrt (16 / 25) = 4 / 5"
  by (rule real_sqrt_unique) (simp_all add: power2_eq_square)

lemma upt_0_4: "[0..<4] = [0, 1, 2, 3]"
  by (simp add: upt_rec numeral_eq_Suc)

lemma lessThan_4: "{..<4::nat} = {0, 1, 2, 3}"
  by auto

lemma Complex_1_0: "Complex 1 0 = 1"
  by (simp add: complex_eq_iff)

lemma unat_pow2: "n < 64 \<Longrightarrow> unat (pow2 n) = 2 ^ n"
  unfolding pow2_def unsigned_push_bit_eq
  by (simp add: take_bit_nat_eq_self push_bit_eq_mult)

lemma bit_pow2: "bit (pow2 n) k \<longleftrightarrow> k = n \<and> n < 64"
  unfolding pow2_def by (auto simp add: bit_exp_iff)

section \<open>Measurement\<close>

lemma Prob_half4:
  "Prob 0 \<lparr>runningNorm = 1, qubitCount = 2, maxQPower = 4, stateVec = [1/2, 1/2, 1/2, 1/2]\<rparr>
     = (1/2, \<lparr>runningNorm = 1, qubitCount = 2, maxQPower = 4, stateVec = [1/2, 1/2, 1/2, 1/2]\<rparr>)"
  by (simp add: Prob_def normalize_if_needed_def pow2_def lessThan_4 normSqrd_def Let_def)

text \<open>
  C1. The claim: \<open>M\<close> rescales the surviving amplitudes by \<open>e\<^sup>i\<^sup>\<theta> / nrmlzr\<close> with
  \<open>nrmlzr = sqrt oneChance\<close> when the result is true. \<open>CoherentUnit::M\<close> sets
  \<open>nrmlzr = oneChance\<close> in that branch (the false branch and the header take the square
  root). On two qubits in the uniform superposition, with both draws 0, the chance is
  1/2, the result is true, and the survivors leave with amplitude 1 instead of
  \<open>1 / sqrt 2\<close>: the vector the call leaves has norm \<open>sqrt 2\<close>.
\<close>

theorem M_true_branch_divides_by_oneChance:
  "M 0 0 0 \<lparr>runningNorm = 1, qubitCount = 2, maxQPower = 4, stateVec = [1/2, 1/2, 1/2, 1/2]\<rparr>
     = (True, \<lparr>runningNorm = sqrt 2, qubitCount = 2, maxQPower = 4, stateVec = [0, 1, 0, 1]\<rparr>)
   \<and> sqrt 2 \<noteq> 1"
  using Prob_half4
  by (simp add: M_def normalize_if_needed_def pow2_def Let_def par_for_all_def upt_0_4
       UpdateRunningNorm_def par_norm_def lessThan_4 normSqrd_def Complex_1_0)

section \<open>Copy constructors\<close>

lemma Register_perm_2_3:
  "Register_perm 2 3 0
     = Inr \<lparr>runningNorm = 1, qubitCount = 2, maxQPower = 4, stateVec = [0, 0, 0, 1]\<rparr>"
  by (simp add: Register_perm_def int_shl_def pow2_def phase_def Complex_1_0 upt_0_4)

lemma CoherentUnit_copy_exact:
  "length (stateVec r) = unat (maxQPower r) \<Longrightarrow> length fresh = unat (maxQPower r)
   \<Longrightarrow> CoherentUnit_copy fresh r = r"
  by (cases r) (simp add: CoherentUnit_copy_def std_copy_def)

text \<open>
  C4. The claim: the copy constructor reproduces every amplitude below
  \<open>2 ^ qubit_count\<close>. \<open>Register::Register(const Register&)\<close> copies the range
  \<open>[stateVec, stateVec + qubitCount)\<close>, that is \<open>qubitCount\<close> amplitudes, into a
  zero-initialised vector. The two-qubit register built in permutation 3 holds its only
  amplitude at index 3; its copy is the zero vector. (\<open>CoherentUnit\<close>'s copy
  constructor copies \<open>maxQPower\<close> amplitudes: \<open>CoherentUnit_copy_exact\<close>.)
\<close>

theorem Register_copy_drops_amplitudes:
  "Register_perm 2 3 0
     = Inr \<lparr>runningNorm = 1, qubitCount = 2, maxQPower = 4, stateVec = [0, 0, 0, 1]\<rparr>
   \<and> stateVec (Register_copy
         \<lparr>runningNorm = 1, qubitCount = 2, maxQPower = 4, stateVec = [0, 0, 0, 1]\<rparr>)
       = [0, 0, 0, 0]
   \<and> stateVec (Register_copy
         \<lparr>runningNorm = 1, qubitCount = 2, maxQPower = 4, stateVec = [0, 0, 0, 1]\<rparr>) ! 3
       \<noteq> [0, 0, 0, 1 :: complex] ! 3"
proof -
  have a: "replicate 4 (0::complex) = [0, 0, 0, 0]"
    by (simp add: numeral_eq_Suc)
  have b: "take 2 [0, 0, 0, 1 :: complex] = [0, 0]" "drop 2 [0, 0, 0, 0 :: complex] = [0, 0]"
    by (simp_all add: numeral_eq_Suc)
  show ?thesis
    by (simp add: Register_perm_2_3 Register_copy_def std_copy_def a b)
qed

section \<open>Constructor guard\<close>

lemma CoherentUnit_new_ok:
  "n \<le> 30 \<Longrightarrow> \<exists>r. CoherentUnit_new n rnd = Inr r \<and> wf_reg r"
  by (simp add: CoherentUnit_new_def int_shl_def wf_reg_def unat_pow2)

text \<open>
  C8. The claim: every constructor, the chosen-permutation form included, raises
  InvalidArgument when the qubit count exceeds 64. The one-argument constructors of
  both classes raise it; the two-argument constructors have no such test, and asked
  for 65 qubits in permutation 0 they go on to evaluate \<open>1 << 65\<close>.
\<close>

theorem constructor_perm_no_guard:
  "CoherentUnit_new 65 0 = Inl InvalidArgument
   \<and> Register_new 65 0 = Inl InvalidArgument
   \<and> CoherentUnit_perm 65 0 0 = Inl UndefinedShift
   \<and> Register_perm 65 0 0 = Inl UndefinedShift
   \<and> CoherentUnit_perm 65 0 0 \<noteq> Inl InvalidArgument
   \<and> Register_perm 65 0 0 \<noteq> Inl InvalidArgument"
  by (simp add: CoherentUnit_new_def Register_new_def CoherentUnit_perm_def
      Register_perm_def int_shl_def)

section \<open>Normalisation before reads\<close>

lemma NormalizeState_scaled:
  "NormalizeState \<lparr>runningNorm = 2, qubitCount = 2, maxQPower = 4, stateVec = [6/5, 8/5, 0, 0]\<rparr>
     = \<lparr>runningNorm = 1, qubitCount = 2, maxQPower = 4, stateVec = [3/5, 4/5, 0, 0]\<rparr>"
  by (simp add: NormalizeState_def par_for_all_def upt_0_4)

text \<open>
  C2. The claim: each of the listed reads first normalises the state when
  \<open>runningNorm\<close> is not 1. \<open>Register::MAll\<close>, the only \<open>MAll\<close> in the sources, has
  no such step. On the two-qubit register with amplitudes \<open>[6/5, 8/5, 0, 0]\<close> and
  \<open>runningNorm = 2\<close> (its true norm), \<open>ProbAll(0)\<close> normalises and returns 9/25, while
  \<open>MAll(0)\<close> with the draw \<open>u = 1/2\<close> compares \<open>u\<close> with the raw 36/25 and reports
  success; on the normalised state the same draw fails.
\<close>

theorem MAll_reads_unnormalized_state:
  "Register_ProbAll 0 \<lparr>runningNorm = 2, qubitCount = 2, maxQPower = 4, stateVec = [6/5, 8/5, 0, 0]\<rparr>
     = (9/25, \<lparr>runningNorm = 1, qubitCount = 2, maxQPower = 4, stateVec = [3/5, 4/5, 0, 0]\<rparr>)
   \<and> Register_MAll 0 (1/2) 0
        \<lparr>runningNorm = 2, qubitCount = 2, maxQPower = 4, stateVec = [6/5, 8/5, 0, 0]\<rparr>
     = Inr (True, \<lparr>runningNorm = 2, qubitCount = 2, maxQPower = 4, stateVec = [1, 0, 0, 0]\<rparr>)
   \<and> Register_MAll 0 (1/2) 0
        (NormalizeState
           \<lparr>runningNorm = 2, qubitCount = 2, maxQPower = 4, stateVec = [6/5, 8/5, 0, 0]\<rparr>)
     = Inr (False, \<lparr>runningNorm = 1, qubitCount = 2, maxQPower = 4, stateVec = [0, 1, 0, 0]\<rparr>)"
  by (simp add: NormalizeState_scaled Register_ProbAll_def normalize_if_needed_def
      Register_MAll_def Let_def normSqrd_def pow2_def upt_0_4 Complex_1_0 sqrt_16_25
      complex_eq_iff)

section \<open>Rotation kernels\<close>

lemma rotate_args_2: 
  "rotate_args (Suc 0) 0 2 \<lparr>runningNorm = 1, qubitCount = 2, maxQPower = 4, stateVec = sv\<rparr>
     = [4, 3, 0, 4, 0, 1, 2, 0, 0, 0]"
  by (simp add: rotate_args_def range_mask_def upt_0_2 pow2_def Let_def)

lemma rol_index_2:
  "rol_index [4, 3, 0, 4, 0, 1, 2, 0, 0, 0] 0 = 0"
  "rol_index [4, 3, 0, 4, 0, 1, 2, 0, 0, 0] 1 = 2"
  "rol_index [4, 3, 0, 4, 0, 1, 2, 0, 0, 0] 2 = 1"
  "rol_index [4, 3, 0, 4, 0, 1, 2, 0, 0, 0] 3 = 3"
  by (simp_all add: rol_index_def cl_shl_def cl_shr_def Let_def)

lemma ror_index_2:
  "ror_index [4, 3, 0, 4, 0, 1, 2, 0, 0, 0] 0 = 0"
  "ror_index [4, 3, 0, 4, 0, 1, 2, 0, 0, 0] 1 = 2"
  "ror_index [4, 3, 0, 4, 0, 1, 2, 0, 0, 0] 2 = 5"
  by (simp_all add: ror_index_def cl_shl_def cl_shr_def Let_def)

text \<open>
  C6. The claim: \<open>ROL(shift)\<close> followed by \<open>ROR(shift)\<close> restores the vector. The
  kernel \<open>ror\<close> masks the right-shifted part and leaves \<open>regInt << (length - shift)\<close>
  unmasked (the kernel \<open>rol\<close> masks the left-shifted part), so bits leave the field.
  On two qubits with the amplitude at index 1, \<open>ROL(1, 0, 2)\<close> moves it to index 2, and
  \<open>ROR(1, 0, 2)\<close> then computes the index 5 for it, outside the four-element vector.
\<close>

theorem ROR_leaves_the_field:
  "ROL 1 0 2 [0, 0, 0, 0] \<lparr>runningNorm = 1, qubitCount = 2, maxQPower = 4, stateVec = [0, 1, 0, 0]\<rparr>
     = Inr \<lparr>runningNorm = 1, qubitCount = 2, maxQPower = 4, stateVec = [0, 0, 1, 0]\<rparr>
   \<and> ror_index [4, 3, 0, 4, 0, 1, 2, 0, 0, 0] 2 = 5
   \<and> ROR 1 0 2 [0, 0, 0, 0] \<lparr>runningNorm = 1, qubitCount = 2, maxQPower = 4, stateVec = [0, 0, 1, 0]\<rparr>
     = Inl OutOfBounds"
  by (simp add: ROL_def ROR_def rotate_args_2 run_kernel_def upt_0_4 rol_index_2 ror_index_2)

section \<open>Scatter with an injective index\<close>

lemma scatter_inj:
  "distinct xs \<Longrightarrow> inj_on dest (set xs) \<Longrightarrow> \<forall>i\<in>set xs. dest i < length out \<and> i < length src
   \<Longrightarrow> \<exists>out'. scatter dest xs src out = Inr out' \<and> length out' = length out
          \<and> (\<forall>i\<in>set xs. out' ! dest i = src ! i)
          \<and> (\<forall>k. k \<notin> dest ` set xs \<longrightarrow> out' ! k = out ! k)"
proof (induction xs arbitrary: out)
  case Nil
  then show ?case by simp
next
  case (Cons i xs)
  let ?out1 = "out[dest i := src ! i]"
  from Cons.prems have d: "distinct xs" and inj: "inj_on dest (set xs)"
    and rng: "\<forall>j\<in>set xs. dest j < length ?out1 \<and> j < length src"
    and here: "dest i < length out" "i < length src"
    and fresh: "dest i \<notin> dest ` set xs"
    by (auto simp: inj_on_def)
  from Cons.IH [OF d inj rng] obtain out' where
    run: "scatter dest xs src ?out1 = Inr out'" and len: "length out' = length ?out1"
    and hit: "\<forall>j\<in>set xs. out' ! dest j = src ! j"
    and miss: "\<forall>k. k \<notin> dest ` set xs \<longrightarrow> out' ! k = ?out1 ! k"
    by blast
  have "out' ! dest i = src ! i"
    using miss fresh here by simp
  moreover have "\<forall>k. k \<notin> dest ` set (i # xs) \<longrightarrow> out' ! k = out ! k"
    using miss by auto
  ultimately show ?case
    using run len hit here by simp
qed

lemma scatter_unwritten:
  "\<forall>i\<in>set xs. dest i < length out \<and> i < length src
   \<Longrightarrow> \<exists>out'. scatter dest xs src out = Inr out' \<and> length out' = length out
          \<and> (\<forall>k. k \<notin> dest ` set xs \<longrightarrow> out' ! k = out ! k)"
proof (induction xs arbitrary: out)
  case Nil
  then show ?case by simp
next
  case (Cons i xs)
  let ?out1 = "out[dest i := src ! i]"
  from Cons.prems have rng: "\<forall>j\<in>set xs. dest j < length ?out1 \<and> j < length src"
    and here: "dest i < length out" "i < length src"
    by auto
  from Cons.IH [OF rng] obtain out' where
    run: "scatter dest xs src ?out1 = Inr out'" and len: "length out' = length ?out1"
    and miss: "\<forall>k. k \<notin> dest ` set xs \<longrightarrow> out' ! k = ?out1 ! k"
    by blast
  have "\<forall>k. k \<notin> dest ` set (i # xs) \<longrightarrow> out' ! k = out ! k"
    using miss by auto
  then show ?case
    using run len here by simp
qed

section \<open>BCD addition on a basis state\<close>

lemma addbcd_args_8:
  "range_mask 0 4 = 15" "range_mask 4 4 = 240"
  by (simp_all add: range_mask_def upt_0_4 pow2_def)

lemma addbcd_index_8: "addbcd_index [256, 15, 240, 0, 16, 0, 4, 1, 0, 0] w = w AND 240"
  by (simp add: addbcd_index_def Let_def cl_shl_def)

lemma and_240_not_33: "unat (w AND (240 :: 64 word)) \<noteq> 33"
proof
  assume "unat (w AND 240) = 33"
  then have "word_of_nat (unat (w AND 240)) = (word_of_nat 33 :: 64 word)"
    by simp
  then have "w AND 240 = 33"
    by simp
  then have "(w AND 240) AND 15 = (33 :: 64 word) AND 15" by simp
  then show False by (simp add: and.assoc)
qed

lemma and_240_bound: "unat (w AND (240 :: 64 word)) < 256"
proof -
  have "unat (w AND 240) \<le> unat (240 :: 64 word)"
    by (rule word_and_le1 [THEN word_le_nat_alt [THEN iffD1]])
  then show ?thesis by simp
qed

text \<open>
  C5. The claim: \<open>ADDBCD\<close> moves the amplitude of a basis state holding two BCD operands
  to the index whose in-out field holds their decimal sum. The host stores the nibble
  count at index 7 of the parameter array and the kernel reads it from index 9, which
  holds 0: both loops over the nibbles run zero times and the in-out field of every
  destination is 0. On eight qubits with the operands 9 (bits 0 to 3) and 2 (bits 4 to 7),
  index 41, the destination is index 32; index 33, which holds the sum 11 modulo 10, is
  never written and keeps the content of the fresh buffer.
\<close>

theorem ADDBCD_clears_the_sum:
  "addbcd_index [256, 15, 240, 0, 16, 0, 4, 1, 0, 0] 41 = 32
   \<and> (\<exists>r'. ADDBCD 0 4 4 (replicate 256 0)
              \<lparr>runningNorm = 1, qubitCount = 8, maxQPower = 256,
                 stateVec = (replicate 256 0)[41 := 1]\<rparr> = Inr r'
            \<and> stateVec r' ! 33 = 0)"
proof -
  let ?A = "[256, 15, 240, 0, 16, 0, 4, 1, 0, 0] :: bitCapInt list"
  let ?dest = "\<lambda>lcv. unat (addbcd_index ?A (of_nat lcv))"
  let ?src = "(replicate 256 (0::complex))[41 := 1]"
  have "\<forall>i\<in>set [0..<256]. ?dest i < length (replicate 256 (0::complex)) \<and> i < length ?src"
    by (simp add: addbcd_index_8 and_240_bound)
  from scatter_unwritten [OF this] obtain out' where
    run: "scatter ?dest [0..<256] ?src (replicate 256 0) = Inr out'"
    and miss: "\<forall>k. k \<notin> ?dest ` set [0..<256] \<longrightarrow> out' ! k = replicate 256 (0::complex) ! k"
    by blast
  have "33 \<notin> ?dest ` set [0..<256]"
    using and_240_not_33 by (auto simp: addbcd_index_8)
  with miss have "out' ! 33 = 0" by simp
  moreover have "pow2 8 - 1 - (15 + 240) = (0 :: bitCapInt)" "pow2 4 = (16 :: bitCapInt)"
    by (simp_all add: pow2_def)
  ultimately show ?thesis
    using run by (simp add: ADDBCD_def Let_def addbcd_args_8 run_kernel_def addbcd_index_8)
qed

section \<open>Dyadic rotations\<close>

lemma Register_RX_minus_pi:
  "Register_RX (- pi) 0 \<lparr>runningNorm = 1, qubitCount = 1, maxQPower = 2, stateVec = [1, 0]\<rparr>
     = Some \<lparr>runningNorm = 1, qubitCount = 1, maxQPower = 2, stateVec = [0, \<i>]\<rparr>"
  by (simp add: Register_RX_def Register_Apply2x2_def par_for_def upt_0_2 Register_pair_def
      pow2_def Let_def UpdateRunningNorm_def par_norm_def lessThan_2 normSqrd_def Complex_1_0
      complex_eq_iff)

lemma Register_RX_minus_2pi:
  "Register_RX (- (2 * pi)) 0 \<lparr>runningNorm = 1, qubitCount = 1, maxQPower = 2, stateVec = [1, 0]\<rparr>
     = Some \<lparr>runningNorm = 1, qubitCount = 1, maxQPower = 2, stateVec = [- 1, 0]\<rparr>"
  by (simp add: Register_RX_def Register_Apply2x2_def par_for_def upt_0_2 Register_pair_def
      pow2_def Let_def UpdateRunningNorm_def par_norm_def lessThan_2 normSqrd_def Complex_1_0
      complex_eq_iff)

text \<open>
  C3, as stated, fails on the header-only class: \<open>Register::RXDyad(1, 1, 0)\<close> applies
  \<open>RX\<close> with the angle \<open>-\<pi>\<close>, not \<open>-2\<pi>\<close>, and the two gates send the basis state
  of one qubit to different vectors.
\<close>

theorem Register_RXDyad_half_angle:
  "Register_RXDyad 1 1 0 \<lparr>runningNorm = 1, qubitCount = 1, maxQPower = 2, stateVec = [1, 0]\<rparr>
     \<noteq> Register_RX (- (pi * real_of_int 1 * 2 / real_of_int 1)) 0
         \<lparr>runningNorm = 1, qubitCount = 1, maxQPower = 2, stateVec = [1, 0]\<rparr>"
  using Register_RX_minus_pi Register_RX_minus_2pi
  by (simp add: Register_RXDyad_def mult.commute complex_eq_iff)

text \<open>
  C3, amended. For a nonzero denominator, the dyadic gates of \<open>CoherentUnit\<close> apply the
  radian gate with angle \<open>-\<pi> \<sqdot> numerator \<sqdot> 2 / denominator\<close> (\<open>R1Dyad\<close> with the
  positive sign), and the dyadic gates of the header-only \<open>Register\<close> apply its radian gate
  with angle \<open>-\<pi> \<sqdot> numerator / denominator\<close> (\<open>R1Dyad\<close> with the positive sign).
\<close>

theorem dyadic_gate_angles:
  assumes "denominator \<noteq> 0"
  shows "R1Dyad numerator denominator q r
           = R1 (pi * real_of_int numerator * 2 / real_of_int denominator) q r
       \<and> RXDyad numerator denominator q r
           = RX (- (pi * real_of_int numerator * 2 / real_of_int denominator)) q r
       \<and> RYDyad numerator denominator q r
           = RY (- (pi * real_of_int numerator * 2 / real_of_int denominator)) q r
       \<and> RZDyad numerator denominator q r
           = RZ (- (pi * real_of_int numerator * 2 / real_of_int denominator)) q r
       \<and> Register_R1Dyad numerator denominator q r
           = Register_R1 (pi * real_of_int numerator / real_of_int denominator) q r
       \<and> Register_RXDyad numerator denominator q r
           = Register_RX (- (pi * real_of_int numerator / real_of_int denominator)) q r
       \<and> Register_RYDyad numerator denominator q r
           = Register_RY (- (pi * real_of_int numerator / real_of_int denominator)) q r
       \<and> Register_RZDyad numerator denominator q r
           = Register_RZ (- (pi * real_of_int numerator / real_of_int denominator)) q r"
  by (simp add: R1Dyad_def RXDyad_def RYDyad_def RZDyad_def Register_R1Dyad_def
      Register_RXDyad_def Register_RYDyad_def Register_RZDyad_def)

theorem dyadic_gate_angles_witness:
  "(4 :: int) \<noteq> 0
   \<and> RXDyad 1 4 0 \<lparr>runningNorm = 1, qubitCount = 1, maxQPower = 2, stateVec = [1, 0]\<rparr>
       = RX (- (pi * real_of_int 1 * 2 / real_of_int 4)) 0
           \<lparr>runningNorm = 1, qubitCount = 1, maxQPower = 2, stateVec = [1, 0]\<rparr>
   \<and> Register_RXDyad 1 4 0 \<lparr>runningNorm = 1, qubitCount = 1, maxQPower = 2, stateVec = [1, 0]\<rparr>
       = Register_RX (- (pi * real_of_int 1 / real_of_int 4)) 0
           \<lparr>runningNorm = 1, qubitCount = 1, maxQPower = 2, stateVec = [1, 0]\<rparr>"
  using dyadic_gate_angles [of 4 1 0 "\<lparr>runningNorm = 1, qubitCount = 1, maxQPower = 2, stateVec = [1, 0]\<rparr>"]
  by simp

section \<open>The range form of X\<close>

lemma range_mask_Suc: "range_mask start (Suc n) = range_mask start n + pow2 (start + n)"
  by (simp add: range_mask_def)

lemma range_mask_eq: "range_mask start len = push_bit start (mask len)"
proof (induction len)
  case 0
  then show ?case by (simp add: range_mask_def)
next
  case (Suc n)
  have "(mask (Suc n) :: bitCapInt) = mask n + 2 ^ n"
    by (simp add: mask_eq_exp_minus_1)
  then show ?case
    by (simp add: range_mask_Suc Suc pow2_def push_bit_add push_bit_eq_mult power_add algebra_simps)
qed

lemma bit_range_mask: "bit (range_mask start len) k \<longleftrightarrow> start \<le> k \<and> k < start + len \<and> k < 64"
  by (auto simp add: range_mask_eq bit_push_bit_iff bit_mask_iff)

lemma bit_flip_bits:
  "bit (flip_bits start len i) k \<longleftrightarrow> (if start \<le> k \<and> k < start + len then \<not> bit i k else bit i k)"
  by (auto simp add: flip_bits_def bit_xor_iff bit_push_bit_iff bit_mask_iff)

lemma flip_bits_involution: "flip_bits start len (flip_bits start len i) = i"
  by (simp add: flip_bits_def xor.assoc)

lemma bit_below: "i < 2 ^ n \<Longrightarrow> bit (i::nat) k \<Longrightarrow> k < n"
  by (metis bit_take_bit_iff take_bit_nat_eq_self)

lemma flip_bits_less: 
  assumes "i < 2 ^ n" "start + len \<le> n"
  shows "flip_bits start len i < 2 ^ n"
proof -
  have "take_bit n (flip_bits start len i) = flip_bits start len i"
    using assms by (intro bit_eqI) (auto simp add: bit_take_bit_iff bit_flip_bits dest: bit_below split: if_splits)
  then show ?thesis by (simp add: take_bit_nat_eq_self_iff)
qed

lemma other_mask_eq:
  assumes "start + len \<le> n" "n < 64"
  shows "(pow2 n - 1) - range_mask start len = mask n AND NOT (range_mask start len)"
proof -
  have "pow2 n - 1 = (mask n :: bitCapInt)"
    by (simp add: pow2_def mask_eq_exp_minus_1)
  moreover have "mask n - range_mask start len = mask n AND NOT (range_mask start len)"
    using assms by (intro disjunctive_diff) (auto simp add: bit_range_mask bit_mask_iff)
  ultimately show ?thesis by simp
qed

lemma X_index_flip:
  assumes "i < 2 ^ n" "start + len \<le> n" "n < 64"
  shows "unat (X_index [range_mask start len, (pow2 n - 1) - range_mask start len] (of_nat i))
           = flip_bits start len i"
  using assms
  by (intro bit_eqI)
     (auto simp add: X_index_def Let_def other_mask_eq bit_unsigned_iff bit_or_iff bit_and_iff
        bit_not_iff bit_range_mask bit_mask_iff bit_of_nat_iff bit_flip_bits
        dest: bit_below split: if_splits)

lemma X_range_step:
  assumes wf: "wf_reg r" and rng: "start + len \<le> qubitCount r"
    and fresh: "length fresh = 2 ^ qubitCount r"
  shows "\<exists>out. X_range start len fresh r = Inr (r\<lparr>stateVec := out\<rparr>)
           \<and> length out = 2 ^ qubitCount r
           \<and> (\<forall>i<2 ^ qubitCount r. out ! flip_bits start len i = stateVec r ! i)"
proof -
  let ?n = "qubitCount r"
  let ?A = "[range_mask start len, (pow2 ?n - 1) - range_mask start len]"
  let ?dest = "\<lambda>lcv. unat (X_index ?A (of_nat lcv))"
  from wf have n: "?n \<le> 30" and mq: "maxQPower r = pow2 ?n" and len: "length (stateVec r) = 2 ^ ?n"
    by (simp_all add: wf_reg_def)
  have um: "unat (maxQPower r) = 2 ^ ?n"
    using n by (simp add: mq unat_pow2)
  have dest: "?dest i = flip_bits start len i" if "i < 2 ^ ?n" for i
    using that rng n by (intro X_index_flip) auto
  have inj: "inj_on ?dest (set [0..<2 ^ ?n])"
  proof (rule inj_onI)
    fix x y assume "x \<in> set [0..<2 ^ ?n]" "y \<in> set [0..<2 ^ ?n]" "?dest x = ?dest y"
    then have "flip_bits start len x = flip_bits start len y"
      by (simp add: dest)
    then have "flip_bits start len (flip_bits start len x) = flip_bits start len (flip_bits start len y)"
      by simp
    then show "x = y" by (simp only: flip_bits_involution)
  qed
  have bnd: "\<forall>i\<in>set [0..<2 ^ ?n]. ?dest i < length fresh \<and> i < length (stateVec r)"
    using rng by (simp add: dest fresh len flip_bits_less)
  from scatter_inj [OF _ inj bnd] obtain out where
    run: "scatter ?dest [0..<2 ^ ?n] (stateVec r) fresh = Inr out"
    and lo: "length out = length fresh"
    and hit: "\<forall>i\<in>set [0..<2 ^ ?n]. out ! ?dest i = stateVec r ! i"
    by auto
  have "X_range start len fresh r = Inr (r\<lparr>stateVec := out\<rparr>)"
    using run by (simp add: X_range_def Let_def par_for_copy_def um)
  moreover have "\<forall>i<2 ^ ?n. out ! flip_bits start len i = stateVec r ! i"
    using hit by (simp add: dest)
  ultimately show ?thesis
    using lo fresh by auto
qed

text \<open>
  C10. On a register of at most 30 qubits with the range \<open>[start, start + len)\<close> inside
  it, the range form of \<open>X\<close> succeeds, changes nothing but the state vector, sends the
  amplitude at each index \<open>i\<close> to the index with exactly the bits of the range
  complemented, and applied a second time restores the register.
\<close>

theorem X_range_complements_bits:
  assumes wf: "wf_reg r" and rng: "start + len \<le> qubitCount r"
    and fresh: "length fresh = 2 ^ qubitCount r" and fresh2: "length fresh2 = 2 ^ qubitCount r"
  shows "\<exists>r'. X_range start len fresh r = Inr r'
           \<and> qubitCount r' = qubitCount r \<and> maxQPower r' = maxQPower r
           \<and> runningNorm r' = runningNorm r
           \<and> length (stateVec r') = 2 ^ qubitCount r
           \<and> (\<forall>i<2 ^ qubitCount r.
                 flip_bits start len i < 2 ^ qubitCount r
                 \<and> stateVec r' ! flip_bits start len i = stateVec r ! i)
           \<and> (\<forall>i k. bit (flip_bits start len i) k
                 = (if start \<le> k \<and> k < start + len then \<not> bit i k else bit i k))
           \<and> (\<exists>r''. X_range start len fresh2 r' = Inr r'' \<and> r'' = r)"
proof -
  let ?n = "qubitCount r"
  from X_range_step [OF wf rng fresh] obtain out where
    run1: "X_range start len fresh r = Inr (r\<lparr>stateVec := out\<rparr>)"
    and len1: "length out = 2 ^ ?n"
    and hit1: "\<forall>i<2 ^ ?n. out ! flip_bits start len i = stateVec r ! i"
    by blast
  let ?r1 = "r\<lparr>stateVec := out\<rparr>"
  have wf1: "wf_reg ?r1"
    using wf len1 by (simp add: wf_reg_def)
  from X_range_step [of ?r1 start len fresh2] wf1 rng fresh2 obtain out2 where
    run2: "X_range start len fresh2 ?r1 = Inr (?r1\<lparr>stateVec := out2\<rparr>)"
    and len2: "length out2 = 2 ^ ?n"
    and hit2: "\<forall>i<2 ^ ?n. out2 ! flip_bits start len i = out ! i"
    by auto
  have len0: "length (stateVec r) = 2 ^ ?n"
    using wf by (simp add: wf_reg_def)
  have "out2 ! j = stateVec r ! j" if "j < 2 ^ ?n" for j
  proof -
    have f: "flip_bits start len j < 2 ^ ?n"
      using that rng by (rule flip_bits_less)
    have "out2 ! flip_bits start len (flip_bits start len j) = out ! flip_bits start len j"
      using hit2 f by blast
    then show ?thesis
      using hit1 that by (simp add: flip_bits_involution)
  qed
  then have "out2 = stateVec r"
    using len2 len0 by (intro nth_equalityI) auto
  then have restored: "?r1\<lparr>stateVec := out2\<rparr> = r"
    by simp
  show ?thesis
    using run1 run2 len1 hit1 restored rng by (auto simp add: flip_bits_less bit_flip_bits)
qed

theorem X_range_complements_bits_witness:
  "wf_reg \<lparr>runningNorm = 1, qubitCount = 2, maxQPower = 4, stateVec = [1, 0, 0, 0]\<rparr>
   \<and> 0 + 1 \<le> qubitCount \<lparr>runningNorm = 1, qubitCount = 2, maxQPower = 4, stateVec = [1, 0, 0, 0]\<rparr>
   \<and> length [0, 0, 0, 0 :: complex] = 2 ^ 2
   \<and> (\<exists>r'. X_range 0 1 [0, 0, 0, 0]
               \<lparr>runningNorm = 1, qubitCount = 2, maxQPower = 4, stateVec = [1, 0, 0, 0]\<rparr> = Inr r'
          \<and> stateVec r' ! flip_bits 0 1 0 = 1
          \<and> (\<exists>r''. X_range 0 1 [0, 0, 0, 0] r' = Inr r''
                 \<and> r'' = \<lparr>runningNorm = 1, qubitCount = 2, maxQPower = 4, stateVec = [1, 0, 0, 0]\<rparr>))"
proof -
  let ?r = "\<lparr>runningNorm = 1, qubitCount = 2, maxQPower = 4, stateVec = [1, 0, 0, 0 :: complex]\<rparr>"
  have wf: "wf_reg ?r"
    by (simp add: wf_reg_def pow2_def)
  have rng: "0 + 1 \<le> qubitCount ?r"
    by simp
  have len: "length [0, 0, 0, 0 :: complex] = 2 ^ qubitCount ?r"
    by simp
  from X_range_complements_bits [OF wf rng len len] obtain r' where
    "X_range 0 1 [0, 0, 0, 0] ?r = Inr r'"
    "\<forall>i<2 ^ qubitCount ?r. flip_bits 0 1 i < 2 ^ qubitCount ?r
        \<and> stateVec r' ! flip_bits 0 1 i = stateVec ?r ! i"
    "\<exists>r''. X_range 0 1 [0, 0, 0, 0] r' = Inr r'' \<and> r'' = ?r"
    by blast
  then show ?thesis
    using wf by auto
qed

section \<open>SetBit after a defective measurement\<close>

lemma M_half4:
  "M 0 0 0 \<lparr>runningNorm = 1, qubitCount = 2, maxQPower = 4, stateVec = [1/2, 1/2, 1/2, 1/2]\<rparr>
     = (True, \<lparr>runningNorm = sqrt 2, qubitCount = 2, maxQPower = 4, stateVec = [0, 1, 0, 1]\<rparr>)"
  using Prob_half4
  by (simp add: M_def normalize_if_needed_def pow2_def Let_def par_for_all_def upt_0_4
       UpdateRunningNorm_def par_norm_def lessThan_4 normSqrd_def Complex_1_0)

lemma M_keeps_zero:
  "M 0 (1/2) 0 \<lparr>runningNorm = 1, qubitCount = 1, maxQPower = 2, stateVec = [1, 0]\<rparr>
     = (False, \<lparr>runningNorm = 1, qubitCount = 1, maxQPower = 2, stateVec = [1, 0]\<rparr>)"
  by (simp add: M_def Prob_def normalize_if_needed_def pow2_def Let_def par_for_all_def upt_0_2
       UpdateRunningNorm_def par_norm_def lessThan_2 normSqrd_def Complex_1_0)

lemma Register_new_1:
  "Register_new 1 0 = Inr \<lparr>runningNorm = 1, qubitCount = 1, maxQPower = 2, stateVec = [1, 0]\<rparr>"
  by (simp add: Register_new_def int_shl_def pow2_def phase_def Complex_1_0)

lemma Register_M_wipes:
  "Register_M 0 (1/2) a \<lparr>runningNorm = 1, qubitCount = 1, maxQPower = 2, stateVec = [1, 0]\<rparr>
     = \<lparr>runningNorm = 0, qubitCount = 1, maxQPower = 2, stateVec = [0, 0]\<rparr>"
  by (simp add: Register_M_def normalize_if_needed_def pow2_def Let_def upt_0_2 lessThan_2
      normSqrd_def complex_eq_iff)

text \<open>
  C9. The claim: \<open>SetBit(q, v)\<close> performs \<open>M(q)\<close>, which collapses qubit \<open>q\<close> with
  renormalisation, applies \<open>X(q)\<close> when the result differs from \<open>v\<close>, and leaves the
  qubit with probability 1 or 0 of being set. In both classes \<open>SetBit\<close> does call
  \<open>M\<close> and then \<open>X\<close>, and it inherits what \<open>M\<close> does wrong.

  \<^item> \<open>CoherentUnit::SetBit(0, true)\<close> on two qubits in the uniform superposition, both
    draws 0: \<open>M\<close> reports true, no \<open>X\<close> follows, and the register is left as
    \<open>[0, 1, 0, 1]\<close> with \<open>runningNorm = sqrt 2\<close>. The survivors were divided by
    \<open>oneChance\<close>, not by its square root: the collapse is not renormalised.
  \<^item> \<open>Register::SetBit\<close> on the fresh one-qubit register (\<open>Register(1)\<close>, phase draw 0,
    vector \<open>[1, 0]\<close>): the first loop of \<open>Register::M\<close> tests \<open>lcv & (qPower == 0)\<close>,
    which is never true, so \<open>zeroChance\<close> stays 0, every draw counts as the outcome 1,
    and the amplitude at index 0 is zeroed. With the draw 1/2, any phase, and the
    comparison reading the requested value (so that no \<open>X\<close> follows), the register is
    left as the zero vector with \<open>runningNorm = 0\<close>: qubit 0 was certainly clear, and no
    state is left.
  \<^item> \<open>CoherentUnit::SetBit(0, false)\<close> on that same register leaves it as it is.
\<close>

theorem SetBit_inherits_measurement_defects:
  "SetBit 0 True 0 0
       \<lparr>runningNorm = 1, qubitCount = 2, maxQPower = 4, stateVec = [1/2, 1/2, 1/2, 1/2]\<rparr>
     = Some \<lparr>runningNorm = sqrt 2, qubitCount = 2, maxQPower = 4, stateVec = [0, 1, 0, 1]\<rparr>
   \<and> sqrt 2 \<noteq> 1
   \<and> Register_new 1 0
       = Inr \<lparr>runningNorm = 1, qubitCount = 1, maxQPower = 2, stateVec = [1, 0]\<rparr>
   \<and> Register_M 0 (1/2) a
         \<lparr>runningNorm = 1, qubitCount = 1, maxQPower = 2, stateVec = [1, 0]\<rparr>
       = \<lparr>runningNorm = 0, qubitCount = 1, maxQPower = 2, stateVec = [0, 0]\<rparr>
   \<and> Register_SetBit 0 v v (1/2) a
         \<lparr>runningNorm = 1, qubitCount = 1, maxQPower = 2, stateVec = [1, 0]\<rparr>
       = Some \<lparr>runningNorm = 0, qubitCount = 1, maxQPower = 2, stateVec = [0, 0]\<rparr>
   \<and> SetBit 0 False (1/2) 0
         \<lparr>runningNorm = 1, qubitCount = 1, maxQPower = 2, stateVec = [1, 0]\<rparr>
       = Some \<lparr>runningNorm = 1, qubitCount = 1, maxQPower = 2, stateVec = [1, 0]\<rparr>"
proof -
  have s1: "SetBit 0 True 0 0
       \<lparr>runningNorm = 1, qubitCount = 2, maxQPower = 4, stateVec = [1/2, 1/2, 1/2, 1/2]\<rparr>
     = Some \<lparr>runningNorm = sqrt 2, qubitCount = 2, maxQPower = 4, stateVec = [0, 1, 0, 1]\<rparr>"
    by (simp add: SetBit_def M_half4)
  have s2: "sqrt 2 \<noteq> 1"
    by simp
  have s3: "Register_SetBit 0 v v (1/2) a
         \<lparr>runningNorm = 1, qubitCount = 1, maxQPower = 2, stateVec = [1, 0]\<rparr>
       = Some \<lparr>runningNorm = 0, qubitCount = 1, maxQPower = 2, stateVec = [0, 0]\<rparr>"
    unfolding Register_SetBit_def Register_M_wipes by simp
  have s4: "SetBit 0 False (1/2) 0
         \<lparr>runningNorm = 1, qubitCount = 1, maxQPower = 2, stateVec = [1, 0]\<rparr>
       = Some \<lparr>runningNorm = 1, qubitCount = 1, maxQPower = 2, stateVec = [1, 0]\<rparr>"
    unfolding SetBit_def M_keeps_zero by simp
  show ?thesis
    by (intro conjI) (rule s1 s2 Register_new_1 Register_M_wipes s3 s4)+
qed

section \<open>The probability read after SetBit (OpenCL class)\<close>

lemma expand_at_or: "expand_at q l = take_bit q l OR push_bit (Suc q) (drop_bit q l)"
  unfolding expand_at_def
  by (rule disjunctive_add) (auto simp add: bit_take_bit_iff bit_push_bit_iff)

lemma compress_at_or: "compress_at q k = take_bit q k OR push_bit q (drop_bit (Suc q) k)"
  unfolding compress_at_def
  by (rule disjunctive_add) (auto simp add: bit_take_bit_iff bit_push_bit_iff)

lemma bit_expand_at:
  "bit (expand_at q l) j \<longleftrightarrow> (j < q \<and> bit l j) \<or> (q < j \<and> bit l (j - 1))"
proof -
  have "bit (push_bit (Suc q) (drop_bit q l)) j \<longleftrightarrow> q < j \<and> bit l (j - 1)"
  proof (cases "q < j")
    case True
    then have "q + (j - Suc q) = j - 1" by simp
    then show ?thesis
      using True by (simp add: bit_push_bit_iff bit_drop_bit_eq Suc_le_eq del: push_bit_Suc drop_bit_Suc)
  next
    case False
    then show ?thesis by (simp add: bit_push_bit_iff del: push_bit_Suc drop_bit_Suc)
  qed
  then show ?thesis
    by (simp add: expand_at_or bit_or_iff bit_take_bit_iff del: push_bit_Suc drop_bit_Suc)
qed

lemma bit_compress_at:
  "bit (compress_at q k) j \<longleftrightarrow> (j < q \<and> bit k j) \<or> (q \<le> j \<and> bit k (Suc j))"
proof -
  have "bit (push_bit q (drop_bit (Suc q) k)) j \<longleftrightarrow> q \<le> j \<and> bit k (Suc j)"
  proof (cases "q \<le> j")
    case True
    then have "Suc q + (j - q) = Suc j" by simp
    then show ?thesis
      using True by (simp add: bit_push_bit_iff bit_drop_bit_eq del: push_bit_Suc drop_bit_Suc)
  next
    case False
    then show ?thesis by (simp add: bit_push_bit_iff del: push_bit_Suc drop_bit_Suc)
  qed
  then show ?thesis
    by (simp add: compress_at_or bit_or_iff bit_take_bit_iff del: push_bit_Suc drop_bit_Suc)
qed

lemma compress_expand: "compress_at q (expand_at q l) = l"
  by (rule bit_eqI) (auto simp add: bit_compress_at bit_expand_at)

lemma not_bit_expand_at: "\<not> bit (expand_at q l) q"
  by (simp add: bit_expand_at)

lemma expand_compress: "expand_at q (compress_at q k) = unset_bit q k"
proof (rule bit_eqI)
  fix j
  consider "j < q" | "j = q" | "q < j" by linarith
  then show "bit (expand_at q (compress_at q k)) j \<longleftrightarrow> bit (unset_bit q k) j"
  proof cases
    case 1
    then show ?thesis by (simp add: bit_compress_at bit_expand_at bit_unset_bit_iff)
  next
    case 2
    then show ?thesis by (simp add: bit_compress_at bit_expand_at bit_unset_bit_iff)
  next
    case 3
    then have "Suc (j - 1) = j" "\<not> j - 1 < q" "q \<le> j - 1" by auto
    then show ?thesis
      using 3 by (auto simp add: bit_compress_at bit_expand_at bit_unset_bit_iff)
  qed
qed

lemma compress_flip: "compress_at q (flip_bit q k) = compress_at q k"
  by (rule bit_eqI) (auto simp add: bit_compress_at bit_flip_bit_iff)

lemma less_2p_iff_bits: "(k::nat) < 2 ^ n \<longleftrightarrow> (\<forall>j. bit k j \<longrightarrow> j < n)"
proof
  assume "k < 2 ^ n"
  then show "\<forall>j. bit k j \<longrightarrow> j < n"
    by (metis bit_take_bit_iff take_bit_nat_eq_self)
next
  assume a: "\<forall>j. bit k j \<longrightarrow> j < n"
  have "take_bit n k = k"
    using a by (intro bit_eqI) (auto simp add: bit_take_bit_iff)
  then show "k < 2 ^ n"
    by (simp add: take_bit_nat_eq_self_iff)
qed

lemma expand_at_less: 
  assumes "q < n"
  shows "expand_at q l < 2 ^ n \<longleftrightarrow> l < 2 ^ (n - 1)"
proof
  assume a: "expand_at q l < 2 ^ n"
  show "l < 2 ^ (n - 1)"
    unfolding less_2p_iff_bits
  proof (intro allI impI)
    fix j assume b: "bit l j"
    show "j < n - 1"
    proof (cases "j < q")
      case True
      then show ?thesis using assms by simp
    next
      case False
      then have "bit (expand_at q l) (Suc j)"
        using b by (simp add: bit_expand_at)
      then have "Suc j < n"
        using a less_2p_iff_bits by blast
      then show ?thesis by simp
    qed
  qed
next
  assume a: "l < 2 ^ (n - 1)"
  show "expand_at q l < 2 ^ n"
    unfolding less_2p_iff_bits
  proof (intro allI impI)
    fix j assume b: "bit (expand_at q l) j"
    then consider "j < q" | "q < j" "bit l (j - 1)"
      by (auto simp add: bit_expand_at)
    then show "j < n"
    proof cases
      case 1
      then show ?thesis using assms by simp
    next
      case 2
      then have "j - 1 < n - 1"
        using a less_2p_iff_bits by blast
      then show ?thesis by simp
    qed
  qed
qed

lemma flip_bit_less:
  assumes "(k::nat) < 2 ^ n" "q < n"
  shows "flip_bit q k < 2 ^ n"
  using assms unfolding less_2p_iff_bits
  by (auto simp add: bit_flip_bit_iff)

lemma compress_at_less:
  assumes "k < 2 ^ n" "q < n"
  shows "compress_at q k < 2 ^ (n - 1)"
  using assms unfolding less_2p_iff_bits
  by (auto simp add: bit_compress_at)

lemma insert_bits_single_word:
  assumes "q < 64"
  shows "insert_bits [pow2 q] lcv 0 = take_bit q lcv OR push_bit (Suc q) (drop_bit q lcv)"
proof -
  have p: "pow2 q = (2 ^ q :: bitCapInt)"
    by (simp add: pow2_def)
  have m: "lcv mod 2 ^ q = take_bit q lcv"
    by (simp add: take_bit_eq_mod)
  have "push_bit q (drop_bit q lcv) + take_bit q lcv = lcv"
    by (rule bits_ident)
  then have d: "lcv - take_bit q lcv = push_bit q (drop_bit q lcv)"
    by (simp add: algebra_simps)
  have "insert_bits [pow2 q] lcv 0 = take_bit q lcv + push_bit 1 (push_bit q (drop_bit q lcv))"
    by (simp add: p m d Let_def del: push_bit_Suc)
  also have "\<dots> = take_bit q lcv + push_bit (Suc q) (drop_bit q lcv)"
    by (simp add: push_bit_eq_mult)
  also have "\<dots> = take_bit q lcv OR push_bit (Suc q) (drop_bit q lcv)"
    by (rule disjunctive_add) (auto simp add: bit_take_bit_iff bit_push_bit_iff simp del: push_bit_Suc)
  finally show ?thesis .
qed

lemma unat_insert_bits_single:
  assumes "q < 64" "l < 2 ^ 63"
  shows "unat (insert_bits [pow2 q] (of_nat l) 0) = expand_at q l"
proof -
  define W :: bitCapInt where "W = take_bit q (of_nat l) OR push_bit (Suc q) (drop_bit q (of_nat l))"
  have lb: "bit l i \<Longrightarrow> i < 63" for i
    using assms(2) less_2p_iff_bits by blast
  have w: "insert_bits [pow2 q] (of_nat l) 0 = W"
    unfolding W_def using assms(1) by (rule insert_bits_single_word)
  have "bit (unat W) j \<longleftrightarrow> bit (expand_at q l) j" for j
  proof (cases "q < j")
    case True
    then have e: "q + (j - Suc q) = j - 1" by simp
    show ?thesis
      using True assms(1) lb [of "j - 1"]
      by (auto simp add: W_def bit_unsigned_iff bit_or_iff bit_take_bit_iff
          bit_push_bit_iff bit_drop_bit_eq bit_of_nat_iff bit_expand_at e Suc_le_eq
          simp del: push_bit_Suc drop_bit_Suc)
  next
    case False
    then show ?thesis
      using assms(1)
      by (auto simp add: W_def bit_unsigned_iff bit_or_iff bit_take_bit_iff
          bit_push_bit_iff bit_of_nat_iff bit_expand_at
          simp del: push_bit_Suc drop_bit_Suc)
  qed
  then have "unat W = expand_at q l"
    by (rule bit_eqI)
  then show ?thesis
    by (simp only: w)
qed

lemma flip_expand: "flip_bit q (expand_at q l) = expand_at q l + 2 ^ q"
proof -
  have "flip_bit q (expand_at q l) = set_bit q (expand_at q l)"
    by (rule bit_eqI) (auto simp add: bit_flip_bit_iff bit_set_bit_iff not_bit_expand_at)
  then show ?thesis
    by (simp add: set_bit_eq not_bit_expand_at)
qed

lemma zmul_X:
  "zmul (Complex t 0) (zmul 0 a + zmul 1 b) = complex_of_real t * b"
  "zmul (Complex t 0) (zmul 1 a + zmul 0 b) = complex_of_real t * a"
  by (simp_all add: zmul_def complex_eq_iff)

lemma compress_cases:
  "k = expand_at q (compress_at q k) \<or> k = flip_bit q (expand_at q (compress_at q k))"
proof (cases "bit k q")
  case True
  have "flip_bit q (unset_bit q k) = k"
    using True by (intro bit_eqI) (auto simp add: bit_flip_bit_iff bit_unset_bit_iff)
  then show ?thesis by (simp add: expand_compress)
next
  case False
  have "unset_bit q k = k"
    using False by (intro bit_eqI) (auto simp add: bit_unset_bit_iff)
  then show ?thesis by (simp add: expand_compress)
qed

lemma flip_bit_twice: "flip_bit q (flip_bit q (k::nat)) = k"
  by (rule bit_eqI) (auto simp add: bit_flip_bit_iff)

lemma flip_bit_neq: "flip_bit q (k::nat) \<noteq> k"
proof
  assume "flip_bit q k = k"
  then have "bit (flip_bit q k) q = bit k q" by simp
  then show False by (simp add: bit_flip_bit_iff)
qed

lemma apply2x2_loop_X:
  fixes sv0 :: "complex list"
  assumes q: "q < n" and n: "n \<le> 30" and len0: "length sv0 = 2 ^ n"
  shows "L \<le> 2 ^ (n - 1) \<Longrightarrow> length sv = 2 ^ n \<Longrightarrow>
         (\<forall>k<2 ^ n. sv ! k = (if compress_at q k < L
                               then complex_of_real t * sv0 ! flip_bit q k else sv0 ! k)) \<Longrightarrow>
         apply2x2_loop [0, 1, 1, 0, Complex t 0] (Complex t 0) (pow2 n) (pow2 q) 0 [pow2 q]
             (of_nat L) sv
           = Some (map (\<lambda>k. complex_of_real t * sv0 ! flip_bit q k) [0..<2 ^ n])"
proof (induction "2 ^ (n - 1) - L" arbitrary: L sv)
  case 0
  then have L: "L = 2 ^ (n - 1)" by simp
  have "(2::nat) ^ (n - 1) \<le> 2 ^ 29"
    using n by (intro power_increasing) auto
  then have L63: "L < 2 ^ 63" using L by simp
  have ui: "unat (insert_bits [pow2 q] (of_nat L) 0) = expand_at q L"
    using q n L63 by (intro unat_insert_bits_single) auto
  have un: "unat (pow2 n) = 2 ^ n"
    using n by (simp add: unat_pow2)
  have "\<not> expand_at q L < 2 ^ n"
    using q L by (simp add: expand_at_less)
  then have stop: "\<not> insert_bits [pow2 q] (of_nat L) 0 < pow2 n"
    by (simp add: word_less_nat_alt ui un del: insert_bits.simps)
  have "sv = map (\<lambda>k. complex_of_real t * sv0 ! flip_bit q k) [0..<2 ^ n]"
  proof (rule nth_equalityI)
    show "length sv = length (map (\<lambda>k. complex_of_real t * sv0 ! flip_bit q k) [0..<2 ^ n])"
      using "0.prems" by simp
  next
    fix k assume "k < length sv"
    then have k: "k < 2 ^ n" using "0.prems" by simp
    then have "compress_at q k < L"
      using compress_at_less [of k n q] q L by simp
    then show "sv ! k = map (\<lambda>k. complex_of_real t * sv0 ! flip_bit q k) [0..<2 ^ n] ! k"
      using "0.prems"(3) k by simp
  qed
  then show ?case
    using stop by (subst apply2x2_loop.simps) (simp del: insert_bits.simps)
next
  case (Suc d)
  then have L: "L < 2 ^ (n - 1)" by simp
  have "(2::nat) ^ (n - 1) \<le> 2 ^ 29"
    using n by (intro power_increasing) auto
  then have L63: "L < 2 ^ 63" using L by simp
  let ?w = "insert_bits [pow2 q] (of_nat L) 0"
  let ?i0 = "expand_at q L"
  let ?i1 = "flip_bit q ?i0"
  have ui: "unat ?w = ?i0"
    using q n L63 by (intro unat_insert_bits_single) auto
  have un: "unat (pow2 n) = 2 ^ n"
    using n by (simp add: unat_pow2)
  have uq: "unat (pow2 q) = 2 ^ q"
    using q n by (simp add: unat_pow2)
  have i0: "?i0 < 2 ^ n"
    using q L by (simp add: expand_at_less)
  have i1: "?i1 < 2 ^ n"
    using i0 q by (rule flip_bit_less)
  have go: "?w < pow2 n"
    using i0 by (simp add: word_less_nat_alt ui un del: insert_bits.simps)
  have "(2::nat) ^ n \<le> 2 ^ 30"
    using n by (intro power_increasing) auto
  then have "unat ?w + unat (pow2 q) < 2 ^ LENGTH(64)"
    using i1 by (simp add: ui uq flip_expand del: insert_bits.simps)
  then have u1: "unat (?w + pow2 q) = ?i1"
    by (simp add: unat_add_lem [THEN iffD1] ui uq flip_expand del: insert_bits.simps)
  have c0: "compress_at q ?i0 = L"
    by (rule compress_expand)
  have c1: "compress_at q ?i1 = L"
    by (simp add: compress_flip compress_expand)
  have s0: "sv ! ?i0 = sv0 ! ?i0" and s1: "sv ! ?i1 = sv0 ! ?i1"
    using Suc.prems(3) i0 i1 c0 c1 by auto
  let ?sv' = "sv[?i1 := complex_of_real t * sv0 ! ?i0, ?i0 := complex_of_real t * sv0 ! ?i1]"
  have body: "apply2x2_body [0, 1, 1, 0, Complex t 0] (Complex t 0) (pow2 q) 0 ?w sv = Some ?sv'"
    using i0 i1 Suc.prems(2)
    by (simp add: apply2x2_body_def u1 ui Let_def zmul_X s0 s1 del: insert_bits.simps)
  have inv': "\<forall>k<2 ^ n. ?sv' ! k = (if compress_at q k < Suc L
                               then complex_of_real t * sv0 ! flip_bit q k else sv0 ! k)"
  proof (intro allI impI)
    fix k assume k: "k < (2::nat) ^ n"
    consider "k = ?i0" | "k = ?i1" | "k \<noteq> ?i0" "k \<noteq> ?i1" by blast
    then show "?sv' ! k = (if compress_at q k < Suc L
                               then complex_of_real t * sv0 ! flip_bit q k else sv0 ! k)"
    proof cases
      case 1
      then show ?thesis
        using i0 Suc.prems(2) by (simp add: c0)
    next
      case 2
      then show ?thesis
        using i1 Suc.prems(2) flip_bit_neq [of q ?i0] by (simp add: c1 flip_bit_twice)
    next
      case 3
      have "compress_at q k \<noteq> L"
        using compress_cases [of k q] 3 by auto
      then show ?thesis
        using 3 Suc.prems(3) k by auto
    qed
  qed
  have step: "apply2x2_loop [0, 1, 1, 0, Complex t 0] (Complex t 0) (pow2 n) (pow2 q) 0 [pow2 q]
                (of_nat (Suc L)) ?sv'
              = Some (map (\<lambda>k. complex_of_real t * sv0 ! flip_bit q k) [0..<2 ^ n])"
    using Suc.hyps(2) L Suc.prems(2) inv' by (intro Suc.hyps(1)) auto
  show ?case
    using go body step by (subst apply2x2_loop.simps) (simp add: add.commute del: insert_bits.simps)
qed

lemma unat_of_nat_small: "i < 2 ^ 64 \<Longrightarrow> unat (of_nat i :: bitCapInt) = i"
  by (simp add: unat_of_nat)

lemma pow2_test_zero: "q < 64 \<Longrightarrow> ((of_nat i :: bitCapInt) AND pow2 q) = 0 \<longleftrightarrow> \<not> bit i q"
  by (simp add: pow2_def and_exp_eq_0_iff_not_bit bit_of_nat_iff)

lemma pow2_test_set: "q < 64 \<Longrightarrow> ((of_nat i :: bitCapInt) AND pow2 q) = pow2 q \<longleftrightarrow> bit i q"
proof -
  assume q: "q < 64"
  have "((of_nat i :: bitCapInt) AND pow2 q) = pow2 q \<longleftrightarrow> bit (of_nat i :: bitCapInt) q"
  proof
    assume "(of_nat i :: bitCapInt) AND pow2 q = pow2 q"
    then have "bit ((of_nat i :: bitCapInt) AND pow2 q) q = bit (pow2 q) q" by simp
    then show "bit (of_nat i :: bitCapInt) q"
      using q by (simp add: bit_and_iff bit_pow2)
  next
    assume "bit (of_nat i :: bitCapInt) q"
    then show "(of_nat i :: bitCapInt) AND pow2 q = pow2 q"
      by (intro bit_eqI) (auto simp add: bit_and_iff bit_pow2)
  qed
  then show ?thesis
    using q by (simp add: bit_of_nat_iff)
qed

lemma fold_pointwise:
  assumes "\<And>i xs. i < N \<Longrightarrow> fn (of_nat i) xs = xs[i := g i (xs ! i)]"
  shows "N \<le> length sv \<Longrightarrow>
         fold fn (map of_nat [0..<N]) sv
           = map (\<lambda>k. if k < N then g k (sv ! k) else sv ! k) [0..<length sv]"
  using assms
proof (induction N)
  case 0
  then show ?case by (simp add: map_nth)
next
  case (Suc N)
  let ?prev = "map (\<lambda>k. if k < N then g k (sv ! k) else sv ! k) [0..<length sv]"
  have prev: "fold fn (map of_nat [0..<N]) sv = ?prev"
    using Suc by simp
  have "fold fn (map of_nat [0..<Suc N]) sv = fn (of_nat N) ?prev"
    by (simp add: prev)
  also have "\<dots> = ?prev[N := g N (?prev ! N)]"
    using Suc.prems(2) by simp
  also have "\<dots> = map (\<lambda>k. if k < Suc N then g k (sv ! k) else sv ! k) [0..<length sv]"
    using Suc.prems(1) by (intro nth_equalityI) (auto simp add: nth_list_update less_Suc_eq)
  finally show ?case .
qed

lemma par_for_all_pointwise:
  assumes "\<And>i xs. i < 2 ^ n \<Longrightarrow> fn (of_nat i) xs = xs[i := g i (xs ! i)]"
    and "length sv = 2 ^ n" and "n \<le> 30"
  shows "par_for_all 0 (pow2 n) sv fn = map (\<lambda>k. g k (sv ! k)) [0..<2 ^ n]"
proof -
  have "par_for_all 0 (pow2 n) sv fn = fold fn (map of_nat [0..<2 ^ n]) sv"
    using assms(3) by (simp add: par_for_all_def unat_pow2)
  also have "\<dots> = map (\<lambda>k. if k < 2 ^ n then g k (sv ! k) else sv ! k) [0..<length sv]"
    using assms(1,2) by (intro fold_pointwise) auto
  also have "\<dots> = map (\<lambda>k. g k (sv ! k)) [0..<2 ^ n]"
    using assms(2) by simp
  finally show ?thesis .
qed

lemma small_index: "n \<le> 30 \<Longrightarrow> i < 2 ^ n \<Longrightarrow> i < (2::nat) ^ 64"
proof -
  assume "n \<le> 30" "i < 2 ^ n"
  moreover have "(2::nat) ^ n \<le> 2 ^ 64" if "n \<le> 30"
    using that by (intro power_increasing) auto
  ultimately show ?thesis by (meson less_le_trans)
qed

lemma unat_of_nat_index: "n \<le> 30 \<Longrightarrow> i < 2 ^ n \<Longrightarrow> unat (of_nat i :: bitCapInt) = i"
  using small_index [of n i] by (simp add: unat_of_nat_small)

lemma NormalizeState_effect:
  assumes "wf_reg r"
  shows "NormalizeState r
     = r\<lparr>stateVec := map (\<lambda>k. stateVec r ! k / complex_of_real (runningNorm r))
                         [0..<2 ^ qubitCount r],
          runningNorm := 1\<rparr>"
proof -
  from assms have n: "qubitCount r \<le> 30" and mq: "maxQPower r = pow2 (qubitCount r)"
    and len: "length (stateVec r) = 2 ^ qubitCount r"
    by (simp_all add: wf_reg_def)
  have "par_for_all 0 (pow2 (qubitCount r)) (stateVec r)
          (\<lambda>lcv sv. sv[unat lcv := sv ! unat lcv / complex_of_real (runningNorm r)])
        = map (\<lambda>k. stateVec r ! k / complex_of_real (runningNorm r)) [0..<2 ^ qubitCount r]"
    using len n
    by (intro par_for_all_pointwise [where g = "\<lambda>k x. x / complex_of_real (runningNorm r)"])
       (simp_all add: unat_of_nat_index [OF n])
  then show ?thesis
    by (simp add: NormalizeState_def mq)
qed

lemma X_effect:
  assumes wf: "wf_reg r" and q: "q < qubitCount r"
  shows "X q r = Some (r\<lparr>stateVec := map (\<lambda>k. complex_of_real (1 / runningNorm r)
                                               * stateVec r ! flip_bit q k)
                                         [0..<2 ^ qubitCount r],
                          runningNorm := 1\<rparr>)"
proof -
  from wf have n: "qubitCount r \<le> 30" and mq: "maxQPower r = pow2 (qubitCount r)"
    and len: "length (stateVec r) = 2 ^ qubitCount r"
    by (simp_all add: wf_reg_def)
  have "apply2x2_loop [0, 1, 1, 0, Complex (1 / runningNorm r) 0] (Complex (1 / runningNorm r) 0)
          (pow2 (qubitCount r)) (pow2 q) 0 [pow2 q] (of_nat 0) (stateVec r)
        = Some (map (\<lambda>k. complex_of_real (1 / runningNorm r) * stateVec r ! flip_bit q k)
                  [0..<2 ^ qubitCount r])"
    using q n len by (intro apply2x2_loop_X) auto
  then show ?thesis
    by (simp add: X_def ApplySingleBit_def Apply2x2_def apply2x2_def Let_def mq
        del: insert_bits.simps)
qed

lemma normSqrd_cmod: "normSqrd c = (cmod c)\<^sup>2"
  unfolding normSqrd_def cmod_power2 by (simp add: power2_eq_square)

lemma normSqrd_mult: "normSqrd (a * b) = normSqrd a * normSqrd b"
  by (simp add: normSqrd_cmod norm_mult power_mult_distrib)

lemma normSqrd_of_real: "normSqrd (complex_of_real t) = t\<^sup>2"
  by (simp add: normSqrd_cmod)

lemma normSqrd_divide: "normSqrd (a / complex_of_real t) = normSqrd a / t\<^sup>2"
  by (simp add: normSqrd_cmod norm_divide power_divide)

lemma normSqrd_phase: "normSqrd (Complex (cos a) (sin a)) = 1"
  by (simp add: normSqrd_def power2_eq_square [symmetric])

lemma normSqrd_nonneg: "0 \<le> normSqrd c"
  by (simp add: normSqrd_cmod)

lemma normSqrd_0: "normSqrd 0 = 0"
  by (simp add: normSqrd_def)

lemma sq_sum_nonneg: "0 \<le> sq_sum P n sv"
  unfolding sq_sum_def by (intro sum_nonneg) (simp add: normSqrd_nonneg)

lemma sq_sum_split: "sq_sum (\<lambda>_. True) n sv = sq_sum P n sv + sq_sum (\<lambda>k. \<not> P k) n sv"
  unfolding sq_sum_def sum.distrib [symmetric]
  by (intro sum.cong) auto

lemma sq_sum_scaled:
  assumes "\<And>k. k < 2 ^ n \<Longrightarrow> P k \<Longrightarrow> normSqrd (sv' ! k) = c * normSqrd (sv ! k)"
  shows "sq_sum P n sv' = c * sq_sum P n sv"
  unfolding sq_sum_def sum_distrib_left
  using assms by (intro sum.cong) auto

lemma sq_sum_zero:
  assumes "\<And>k. k < 2 ^ n \<Longrightarrow> P k \<Longrightarrow> sv' ! k = 0"
  shows "sq_sum P n sv' = 0"
  unfolding sq_sum_def
  using assms by (intro sum.neutral) (auto simp add: normSqrd_0)

lemma sq_sum_flip:
  assumes q: "q < n"
    and "\<And>k. k < 2 ^ n \<Longrightarrow> bit k q \<Longrightarrow> normSqrd (sv' ! k) = c * normSqrd (sv ! flip_bit q k)"
  shows "sq_sum (\<lambda>k. bit k q) n sv' = c * sq_sum (\<lambda>k. \<not> bit k q) n sv"
proof -
  have "sq_sum (\<lambda>k. bit k q) n sv'
      = (\<Sum>k<2 ^ n. if bit k q then c * normSqrd (sv ! flip_bit q k) else 0)"
    unfolding sq_sum_def using assms(2) by (intro sum.cong) auto
  also have "\<dots> = (\<Sum>j<2 ^ n. if \<not> bit j q then c * normSqrd (sv ! j) else 0)"
    by (rule sum.reindex_bij_witness [where i = "flip_bit q" and j = "flip_bit q"])
       (auto simp add: flip_bit_twice flip_bit_less q bit_flip_bit_iff)
  also have "\<dots> = c * sq_sum (\<lambda>k. \<not> bit k q) n sv"
    unfolding sq_sum_def sum_distrib_left by (intro sum.cong) auto
  finally show ?thesis .
qed

lemma par_norm_sq_sum: "n \<le> 30 \<Longrightarrow> par_norm (pow2 n) sv = sqrt (sq_sum (\<lambda>_. True) n sv)"
  by (simp add: par_norm_def sq_sum_def unat_pow2)

lemma normalize_if_needed_fields:
  assumes "wf_reg r"
  shows "wf_reg (normalize_if_needed r)" "runningNorm (normalize_if_needed r) = 1"
    "qubitCount (normalize_if_needed r) = qubitCount r"
    "maxQPower (normalize_if_needed r) = maxQPower r"
  using assms
  by (auto simp add: normalize_if_needed_def NormalizeState_effect wf_reg_def)

lemma normalize_if_needed_idem:
  assumes "wf_reg r"
  shows "normalize_if_needed (normalize_if_needed r) = normalize_if_needed r"
  using normalize_if_needed_fields(2) [OF assms]
  by (simp add: normalize_if_needed_def [of "normalize_if_needed r"])

lemma normalize_if_needed_total:
  assumes wf: "wf_reg r"
    and rn: "runningNorm r = par_norm (maxQPower r) (stateVec r)" and pos: "0 < runningNorm r"
  shows "sq_sum (\<lambda>_. True) (qubitCount r) (stateVec (normalize_if_needed r)) = 1"
proof -
  let ?n = "qubitCount r"
  let ?T = "sq_sum (\<lambda>_. True) ?n (stateVec r)"
  from wf have n: "?n \<le> 30" and mq: "maxQPower r = pow2 ?n"
    by (simp_all add: wf_reg_def)
  have rs: "runningNorm r = sqrt ?T"
    using rn n by (simp add: mq par_norm_sq_sum)
  have T: "?T = (runningNorm r)\<^sup>2"
    using sq_sum_nonneg [of "\<lambda>_. True" ?n "stateVec r"] by (simp add: rs)
  show ?thesis
  proof (cases "runningNorm r = 1")
    case True
    then show ?thesis
      using T by (simp add: normalize_if_needed_def)
  next
    case False
    have "sq_sum (\<lambda>_. True) ?n (stateVec (NormalizeState r)) = (1 / (runningNorm r)\<^sup>2) * ?T"
      by (rule sq_sum_scaled) (simp add: NormalizeState_effect [OF wf] normSqrd_divide)
    also have "\<dots> = 1"
      using pos by (simp add: T)
    finally show ?thesis
      using False by (simp add: normalize_if_needed_def)
  qed
qed

lemma Prob_eval:
  assumes wf: "wf_reg r" and q: "q < qubitCount r"
  shows "Prob q r = (sq_sum (\<lambda>k. bit k q) (qubitCount r) (stateVec (normalize_if_needed r)),
                     normalize_if_needed r)"
proof -
  let ?n = "qubitCount r"
  from wf have n: "?n \<le> 30" and mq: "maxQPower r = pow2 ?n"
    by (simp_all add: wf_reg_def)
  have q64: "q < 64" using q n by simp
  have um: "unat (maxQPower (normalize_if_needed r)) = 2 ^ ?n"
    using n by (simp add: normalize_if_needed_fields [OF wf] mq unat_pow2)
  show ?thesis
    by (simp add: Prob_def Let_def um sq_sum_def pow2_test_set [OF q64])
qed

lemma M_effect:
  fixes u a :: real
  assumes wf: "wf_reg r" and q: "q < qubitCount r"
  defines "r1 \<equiv> normalize_if_needed r"
  defines "p \<equiv> sq_sum (\<lambda>k. bit k q) (qubitCount r) (stateVec r1)"
  defines "res \<equiv> (u < p \<and> 0 < p)"
  defines "cT \<equiv> Complex (cos (a * 2 * pi)) (sin (a * 2 * pi))
                   / complex_of_real (if 0 < p then p else 1)"
  defines "cF \<equiv> Complex (cos (a * 2 * pi)) (sin (a * 2 * pi))
                   / complex_of_real (if p < 1 then sqrt (1 - p) else 1)"
  defines "sv2 \<equiv> map (\<lambda>k. if res then (if bit k q then cT * stateVec r1 ! k else 0)
                           else (if bit k q then 0 else cF * stateVec r1 ! k))
                    [0..<2 ^ qubitCount r]"
  shows "M q u a r = (res, r1\<lparr>stateVec := sv2,
                               runningNorm := sqrt (sq_sum (\<lambda>_. True) (qubitCount r) sv2)\<rparr>)"
proof -
  let ?n = "qubitCount r"
  from wf have n: "?n \<le> 30" and mq: "maxQPower r = pow2 ?n"
    by (simp_all add: wf_reg_def)
  have q64: "q < 64" using q n by simp
  have wf1: "wf_reg r1" and f1: "qubitCount r1 = ?n" "maxQPower r1 = pow2 ?n"
    unfolding r1_def using normalize_if_needed_fields [OF wf] mq by simp_all
  have len1: "length (stateVec r1) = 2 ^ ?n"
    using wf1 f1 by (simp add: wf_reg_def)
  have idem: "normalize_if_needed r1 = r1"
    unfolding r1_def by (rule normalize_if_needed_idem [OF wf])
  have pr: "Prob q r1 = (p, r1)"
    using Prob_eval [OF wf1] q by (simp add: f1 idem p_def)
  have ui: "\<And>i. i < 2 ^ ?n \<Longrightarrow> unat (of_nat i :: bitCapInt) = i"
    by (rule unat_of_nat_index [OF n])
  have t: "par_for_all 0 (pow2 ?n) (stateVec r1)
             (\<lambda>lcv sv. if (lcv AND pow2 q) = 0 then sv[unat lcv := 0]
                        else sv[unat lcv := cT * sv ! unat lcv])
           = map (\<lambda>k. if bit k q then cT * stateVec r1 ! k else 0) [0..<2 ^ ?n]"
    using len1 n
    by (intro par_for_all_pointwise [where g = "\<lambda>k x. if bit k q then cT * x else 0"])
       (simp_all add: ui pow2_test_zero [OF q64])
  have f: "par_for_all 0 (pow2 ?n) (stateVec r1)
             (\<lambda>lcv sv. if (lcv AND pow2 q) = 0 then sv[unat lcv := cF * sv ! unat lcv]
                        else sv[unat lcv := 0])
           = map (\<lambda>k. if bit k q then 0 else cF * stateVec r1 ! k) [0..<2 ^ ?n]"
    using len1 n
    by (intro par_for_all_pointwise [where g = "\<lambda>k x. if bit k q then 0 else cF * x"])
       (simp_all add: ui pow2_test_zero [OF q64])
  have sv2_eq: "sv2 = (if res then map (\<lambda>k. if bit k q then cT * stateVec r1 ! k else 0) [0..<2 ^ ?n]
                       else map (\<lambda>k. if bit k q then 0 else cF * stateVec r1 ! k) [0..<2 ^ ?n])"
    by (simp add: sv2_def)
  show ?thesis
  proof (cases res)
    case True
    then have p: "0 < p" "u < p" by (simp_all add: res_def)
    have c: "cT = Complex (cos (a * 2 * pi)) (sin (a * 2 * pi)) / complex_of_real p"
      using p by (simp add: cT_def)
    show ?thesis
      unfolding sv2_eq c
      using pr t [unfolded c] n True p
      by (simp add: M_def Let_def r1_def [symmetric] f1 UpdateRunningNorm_def par_norm_sq_sum)
  next
    case False
    then have nr: "\<not> (u < p \<and> 0 < p)" by (simp add: res_def)
    show ?thesis
    proof (cases "p < 1")
      case True
      have c: "cF = Complex (cos (a * 2 * pi)) (sin (a * 2 * pi)) / complex_of_real (sqrt (1 - p))"
        using True by (simp add: cF_def)
      show ?thesis
        unfolding sv2_eq c
        using pr f [unfolded c] n \<open>\<not> res\<close> nr True
        by (auto simp add: M_def Let_def r1_def [symmetric] f1 UpdateRunningNorm_def par_norm_sq_sum)
    next
      case False
      have c: "cF = Complex (cos (a * 2 * pi)) (sin (a * 2 * pi)) / complex_of_real 1"
        using False by (simp add: cF_def)
      show ?thesis
        unfolding sv2_eq c
        using pr f [unfolded c] n \<open>\<not> res\<close> nr False
        by (auto simp add: M_def Let_def r1_def [symmetric] f1 UpdateRunningNorm_def par_norm_sq_sum)
    qed
  qed
qed

lemma normalize_if_needed_sq_sum:
  assumes wf: "wf_reg r"
    and rn: "runningNorm r = sqrt (sq_sum (\<lambda>_. True) (qubitCount r) (stateVec r))"
    and pos: "0 < sq_sum (\<lambda>_. True) (qubitCount r) (stateVec r)"
  shows "sq_sum P (qubitCount r) (stateVec (normalize_if_needed r))
           = sq_sum P (qubitCount r) (stateVec r) / sq_sum (\<lambda>_. True) (qubitCount r) (stateVec r)"
proof -
  let ?n = "qubitCount r"
  let ?T = "sq_sum (\<lambda>_. True) ?n (stateVec r)"
  have T: "(runningNorm r)\<^sup>2 = ?T"
    using pos by (simp add: rn)
  show ?thesis
  proof (cases "runningNorm r = 1")
    case True
    then have "?T = 1" using T by simp
    then show ?thesis
      using True by (simp add: normalize_if_needed_def)
  next
    case False
    have "sq_sum P ?n (stateVec (NormalizeState r)) = (1 / (runningNorm r)\<^sup>2) * sq_sum P ?n (stateVec r)"
      by (rule sq_sum_scaled) (simp add: NormalizeState_effect [OF wf] normSqrd_divide)
    then show ?thesis
      using False by (simp add: normalize_if_needed_def T)
  qed
qed

text \<open>
  What \<open>CoherentUnit::SetBit\<close> does reach: on a register that satisfies the
  constructors' invariant, whose \<open>runningNorm\<close> is the norm of its vector and is
  positive, and for a draw \<open>u\<close> in \<open>[0, 1)\<close>, the call returns, and a following
  \<open>Prob(q)\<close>, which normalises before it reads, yields 1 if \<open>v\<close> is true and 0 if \<open>v\<close>
  is false.
\<close>

lemma SetBit_final_probability:
  fixes u a :: real
  assumes wf: "wf_reg r" and q: "q < qubitCount r"
    and rn: "runningNorm r = par_norm (maxQPower r) (stateVec r)" and pos: "0 < runningNorm r"
    and u: "0 \<le> u" "u < 1"
  shows "\<exists>r'. SetBit q v u a r = Some r' \<and> fst (Prob q r') = (if v then 1 else 0)"
proof -
  let ?n = "qubitCount r"
  define r1 where "r1 = normalize_if_needed r"
  define p where "p = sq_sum (\<lambda>k. bit k q) ?n (stateVec r1)"
  define z where "z = sq_sum (\<lambda>k. \<not> bit k q) ?n (stateVec r1)"
  define res where "res \<longleftrightarrow> u < p \<and> 0 < p"
  define cT where "cT = Complex (cos (a * 2 * pi)) (sin (a * 2 * pi))
                   / complex_of_real (if 0 < p then p else 1)"
  define cF where "cF = Complex (cos (a * 2 * pi)) (sin (a * 2 * pi))
                   / complex_of_real (if p < 1 then sqrt (1 - p) else 1)"
  define sv2 where "sv2 = map (\<lambda>k. if res then (if bit k q then cT * stateVec r1 ! k else 0)
                           else (if bit k q then 0 else cF * stateVec r1 ! k))
                    [0..<2 ^ ?n]"
  define T2 where "T2 = sq_sum (\<lambda>_. True) ?n sv2"
  define r2 where "r2 = r1\<lparr>stateVec := sv2, runningNorm := sqrt T2\<rparr>"
  from wf have n: "?n \<le> 30" and mq: "maxQPower r = pow2 ?n"
    by (simp_all add: wf_reg_def)
  have m: "M q u a r = (res, r2)"
    unfolding r2_def T2_def sv2_def res_def cT_def cF_def p_def r1_def
    by (rule M_effect [OF wf q])
  have f1: "qubitCount r1 = ?n" "maxQPower r1 = pow2 ?n"
    unfolding r1_def using normalize_if_needed_fields [OF wf] mq by simp_all
  have wf2: "wf_reg r2" and f2: "qubitCount r2 = ?n" "stateVec r2 = sv2" "runningNorm r2 = sqrt T2"
    using n by (simp_all add: r2_def wf_reg_def f1 sv2_def)
  have q2: "q < qubitCount r2" using q by (simp add: f2)
  have total1: "p + z = 1"
    using normalize_if_needed_total [OF wf rn pos]
      sq_sum_split [of ?n "stateVec r1" "\<lambda>k. bit k q"]
    by (simp add: p_def z_def r1_def)
  have p0: "0 \<le> p" and z0: "0 \<le> z"
    by (simp_all add: p_def z_def sq_sum_nonneg)
  have nth2: "\<And>k. k < 2 ^ ?n \<Longrightarrow> sv2 ! k =
      (if res then (if bit k q then cT * stateVec r1 ! k else 0)
       else (if bit k q then 0 else cF * stateVec r1 ! k))"
    by (simp add: sv2_def)
  have split2: "T2 = sq_sum (\<lambda>k. bit k q) ?n sv2 + sq_sum (\<lambda>k. \<not> bit k q) ?n sv2"
    unfolding T2_def by (rule sq_sum_split)
  define sv3 where "sv3 = map (\<lambda>k. complex_of_real (1 / sqrt T2) * sv2 ! flip_bit q k)
                            [0..<2 ^ ?n]"
  define r3 where "r3 = r2\<lparr>stateVec := sv3, runningNorm := 1\<rparr>"
  have x: "X q r2 = Some r3"
    using X_effect [OF wf2 q2] by (simp add: f2 r3_def sv3_def)
  have nth3: "\<And>k. k < 2 ^ ?n \<Longrightarrow> sv3 ! k = complex_of_real (1 / sqrt T2) * sv2 ! flip_bit q k"
    by (simp add: sv3_def)
  have wf3: "wf_reg r3" and f3: "qubitCount r3 = ?n" "stateVec r3 = sv3" "runningNorm r3 = 1"
    using wf2 by (simp_all add: wf_reg_def f2 r3_def sv3_def)
  have p3: "fst (Prob q r3) = sq_sum (\<lambda>k. bit k q) ?n sv3"
    using Prob_eval [OF wf3] q by (simp add: f3 normalize_if_needed_def)
  have p2: "fst (Prob q r2) = sq_sum (\<lambda>k. bit k q) ?n (stateVec (normalize_if_needed r2))"
    using Prob_eval [OF wf2 q2] by (simp add: f2)
  have final: "fst (Prob q (if v \<noteq> res then r3 else r2)) = (if v then 1 else 0)"
  proof (cases res)
    case True
    then have pp: "0 < p" by (simp add: res_def)
    have ncT: "normSqrd cT = 1 / p\<^sup>2"
      using pp by (simp add: cT_def normSqrd_divide normSqrd_phase)
    have "sq_sum (\<lambda>k. bit k q) ?n sv2 = normSqrd cT * p"
      unfolding p_def
      by (rule sq_sum_scaled) (simp add: nth2 True normSqrd_mult)
    then have one2: "sq_sum (\<lambda>k. bit k q) ?n sv2 = (1 / p\<^sup>2) * p"
      by (simp only: ncT)
    have zero2: "sq_sum (\<lambda>k. \<not> bit k q) ?n sv2 = 0"
      by (rule sq_sum_zero) (simp add: nth2 True)
    have T2v: "T2 = 1 / p"
      using pp by (simp add: split2 one2 zero2 power2_eq_square)
    show ?thesis
    proof (cases v)
      case True
      have "sq_sum (\<lambda>k. bit k q) ?n (stateVec (normalize_if_needed r2))
              = sq_sum (\<lambda>k. bit k q) ?n (stateVec r2) / sq_sum (\<lambda>_. True) ?n (stateVec r2)"
        using normalize_if_needed_sq_sum [OF wf2, of "\<lambda>k. bit k q"] pp
        by (simp add: f2 T2_def [symmetric] T2v)
      also have "\<dots> = 1"
        using pp by (simp add: f2 T2_def [symmetric] T2v one2 power2_eq_square)
      finally show ?thesis
        using True \<open>res\<close> by (simp add: p2)
    next
      case False
      have "sq_sum (\<lambda>k. bit k q) ?n sv3 = 0"
      proof (rule sq_sum_zero)
        fix k assume k: "k < (2::nat) ^ ?n" "bit k q"
        then have "flip_bit q k < 2 ^ ?n" "\<not> bit (flip_bit q k) q"
          using q by (simp_all add: flip_bit_less bit_flip_bit_iff)
        then show "sv3 ! k = 0"
          using k \<open>res\<close> by (simp add: nth2 nth3)
      qed
      then show ?thesis
        using False \<open>res\<close> by (simp add: p3)
    qed
  next
    case False
    have one2: "sq_sum (\<lambda>k. bit k q) ?n sv2 = 0"
      by (rule sq_sum_zero) (simp add: nth2 False)
    show ?thesis
    proof (cases v)
      case True
      have p1: "p < 1"
      proof (cases "0 < p")
        case True
        then have "\<not> u < p" using False by (simp add: res_def)
        then show ?thesis using u by simp
      next
        case False
        then show ?thesis using p0 by simp
      qed
      then have zp: "0 < z" "z = 1 - p" using total1 by simp_all
      have ncF: "normSqrd cF = 1 / (1 - p)"
        using p1 by (simp add: cF_def normSqrd_divide normSqrd_phase)
      have "sq_sum (\<lambda>k. \<not> bit k q) ?n sv2 = normSqrd cF * z"
        unfolding z_def
        by (rule sq_sum_scaled) (simp add: nth2 False normSqrd_mult)
      then have zero2: "sq_sum (\<lambda>k. \<not> bit k q) ?n sv2 = (1 / (1 - p)) * z"
        by (simp only: ncF)
      have T2v: "T2 = 1"
        using zp by (simp add: split2 one2 zero2)
      have "sq_sum (\<lambda>k. bit k q) ?n sv3 = 1 * sq_sum (\<lambda>k. \<not> bit k q) ?n sv2"
        using q by (intro sq_sum_flip) (simp_all add: T2v nth3)
      also have "\<dots> = 1"
        using zp by (simp add: zero2)
      finally show ?thesis
        using True \<open>\<not> res\<close> by (simp add: p3)
    next
      case False
      have "sq_sum (\<lambda>k. bit k q) ?n (stateVec (normalize_if_needed r2)) = 0"
      proof (rule sq_sum_zero)
        fix k assume k: "k < (2::nat) ^ ?n" "bit k q"
        then have "sv2 ! k = 0"
          using \<open>\<not> res\<close> by (simp add: nth2)
        then show "stateVec (normalize_if_needed r2) ! k = 0"
          using k by (simp add: normalize_if_needed_def NormalizeState_effect [OF wf2] f2)
      qed
      then show ?thesis
        using False \<open>\<not> res\<close> by (simp add: p2)
    qed
  qed
  have "SetBit q v u a r = Some (if v \<noteq> res then r3 else r2)"
    using x by (simp add: SetBit_def m)
  then show ?thesis
    using final by simp
qed

section \<open>Properties of Cohere\<close>

lemma fold_pow2_range: "fold (\<lambda>i m. m + pow2 i) [a..<a + len] 0 = range_mask a len"
proof -
  have "[a..<a + len] = map (\<lambda>i. i + a) [0..<len]"
    by (simp add: map_add_upt add.commute)
  then show ?thesis
    by (simp add: range_mask_def fold_map comp_def add.commute)
qed

lemma startMask_eq: "fold (\<lambda>i m. m + pow2 i) [0..<n] 0 = (mask n :: bitCapInt)"
  using fold_pow2_range [of 0 n] by (simp add: range_mask_eq)

lemma endMask_eq: "fold (\<lambda>i m. m + pow2 i) [n..<n + m] 0 = (push_bit n (mask m) :: bitCapInt)"
  using fold_pow2_range [of n m] by (simp add: range_mask_eq)

lemma nat_startMask: "(2::nat) ^ n - 1 = mask n"
  by (simp add: mask_eq_exp_minus_1)

lemma nat_endMask: "(2::nat) ^ (n + m) - 1 - (2 ^ n - 1) = push_bit n (mask m)"
proof -
  have "(2::nat) ^ (n + m) - 1 - (2 ^ n - 1) = 2 ^ (n + m) - 2 ^ n"
    by simp
  also have "\<dots> = 2 ^ n * (2 ^ m - 1)"
    by (simp add: power_add diff_mult_distrib2)
  finally show ?thesis
    by (simp add: push_bit_eq_mult mask_eq_exp_minus_1 mult.commute)
qed

lemma nat_endMask_mask: "(mask (n + m) :: nat) - mask n = push_bit n (mask m)"
  using nat_endMask [of n m] by (simp add: mask_eq_exp_minus_1)

lemma start_index: 
  "n < 64 \<Longrightarrow> unat ((of_nat i :: bitCapInt) AND mask n) = i AND mask n"
  by (intro bit_eqI)
     (auto simp add: bit_unsigned_iff bit_and_iff bit_of_nat_iff bit_mask_iff)

lemma end_index:
  "n + m < 64 \<Longrightarrow> unat (drop_bit n ((of_nat i :: bitCapInt) AND push_bit n (mask m)))
     = drop_bit n (i AND push_bit n (mask m))"
  by (intro bit_eqI)
     (auto simp add: bit_unsigned_iff bit_and_iff bit_of_nat_iff bit_mask_iff
        bit_drop_bit_eq bit_push_bit_iff)

text \<open>
  C7, as stated, fails in its last clause: the argument of \<open>Cohere\<close> is not left as it
  was. An argument with \<open>runningNorm = 2\<close> comes back with its amplitudes halved and
  \<open>runningNorm = 1\<close>.
\<close>

theorem Cohere_normalizes_argument:
  "snd (Cohere 0 \<lparr>runningNorm = 1, qubitCount = 1, maxQPower = 2, stateVec = [1, 0]\<rparr>
                 \<lparr>runningNorm = 2, qubitCount = 1, maxQPower = 2, stateVec = [2, 0]\<rparr>)
     = \<lparr>runningNorm = 1, qubitCount = 1, maxQPower = 2, stateVec = [1, 0]\<rparr>
   \<and> snd (Cohere 0 \<lparr>runningNorm = 1, qubitCount = 1, maxQPower = 2, stateVec = [1, 0]\<rparr>
                   \<lparr>runningNorm = 2, qubitCount = 1, maxQPower = 2, stateVec = [2, 0]\<rparr>)
     \<noteq> \<lparr>runningNorm = 2, qubitCount = 1, maxQPower = 2, stateVec = [2, 0]\<rparr>"
  by (simp add: Cohere_def Let_def normalize_if_needed_def NormalizeState_def par_for_all_def
      upt_0_2)

text \<open>
  C7, amended. For two registers that satisfy the constructors' invariant and have at
  most 30 qubits together, \<open>Cohere\<close> normalises both where their running norm is not 1,
  leaves the argument otherwise unchanged, sets the qubit count to the sum \<open>nQ\<close>, and
  builds the vector of length \<open>2 ^ nQ\<close> whose entry at \<open>i\<close> is
  \<open>e\<^sup>i\<^sup>\<theta> * sqrt (|state[i & startMask]|\<^sup>2 * |other.state[(i & endMask) >> qubit_count]|\<^sup>2)\<close>
  with \<open>startMask = 2 ^ qubit_count - 1\<close>, \<open>endMask = 2 ^ nQ - 1 - startMask\<close> and the
  one phase drawn; both reads stay inside the normalised vectors, and the running norm is
  recomputed from the new vector.
\<close>

lemma nat_and_mask_less: "(i::nat) AND mask n < 2 ^ n"
  by (simp add: take_bit_eq_mask [symmetric])

lemma nat_end_index_less: "drop_bit n ((i::nat) AND push_bit n (mask m)) < 2 ^ m"
proof -
  have "drop_bit n (i AND push_bit n (mask m)) = take_bit m (drop_bit n i)"
    by (rule bit_eqI) (auto simp add: bit_drop_bit_eq bit_and_iff bit_push_bit_iff bit_mask_iff
        bit_take_bit_iff)
  then show ?thesis by simp
qed

theorem Cohere_product:
  assumes wf: "wf_reg r" and wfo: "wf_reg other"
    and small: "qubitCount r + qubitCount other \<le> 30"
  shows "snd (Cohere rnd r other) = normalize_if_needed other
       \<and> wf_reg (fst (Cohere rnd r other))
       \<and> qubitCount (fst (Cohere rnd r other)) = qubitCount r + qubitCount other
       \<and> maxQPower (fst (Cohere rnd r other)) = pow2 (qubitCount r + qubitCount other)
       \<and> length (stateVec (fst (Cohere rnd r other))) = 2 ^ (qubitCount r + qubitCount other)
       \<and> (\<forall>i<2 ^ (qubitCount r + qubitCount other).
            i AND (2 ^ qubitCount r - 1) < length (stateVec (normalize_if_needed r))
            \<and> drop_bit (qubitCount r)
                 (i AND (2 ^ (qubitCount r + qubitCount other) - 1 - (2 ^ qubitCount r - 1)))
                < length (stateVec (normalize_if_needed other))
            \<and> stateVec (fst (Cohere rnd r other)) ! i
              = phase (rnd * 2 * pi) * complex_of_real (sqrt
                  (normSqrd (stateVec (normalize_if_needed r) ! (i AND (2 ^ qubitCount r - 1)))
                   * normSqrd (stateVec (normalize_if_needed other)
                       ! drop_bit (qubitCount r)
                           (i AND (2 ^ (qubitCount r + qubitCount other) - 1
                                     - (2 ^ qubitCount r - 1)))))))
       \<and> runningNorm (fst (Cohere rnd r other))
            = par_norm (pow2 (qubitCount r + qubitCount other)) (stateVec (fst (Cohere rnd r other)))"
proof -
  let ?n = "qubitCount r" and ?m = "qubitCount other"
  have qc: "qubitCount (normalize_if_needed r) = ?n" "qubitCount (normalize_if_needed other) = ?m"
    by (simp_all add: normalize_if_needed_fields wf wfo)
  have lens: "length (stateVec (normalize_if_needed r)) = 2 ^ ?n"
    "length (stateVec (normalize_if_needed other)) = 2 ^ ?m"
    using normalize_if_needed_fields(1) [OF wf] normalize_if_needed_fields(1) [OF wfo]
    by (simp_all add: wf_reg_def qc)
  have up: "unat (pow2 (?n + ?m)) = 2 ^ (?n + ?m)"
    using small by (simp add: unat_pow2)
  have sv: "stateVec (fst (Cohere rnd r other))
      = map (\<lambda>i. phase (rnd * 2 * pi) * complex_of_real (sqrt
              (normSqrd (stateVec (normalize_if_needed r) ! (i AND mask ?n))
               * normSqrd (stateVec (normalize_if_needed other)
                   ! drop_bit ?n (i AND push_bit ?n (mask ?m))))))
          [0..<2 ^ (?n + ?m)]"
    using small
    by (simp add: Cohere_def Let_def qc up startMask_eq endMask_eq start_index end_index
        UpdateRunningNorm_def phase_def del: drop_bit_and)
  have rest: "snd (Cohere rnd r other) = normalize_if_needed other"
    "qubitCount (fst (Cohere rnd r other)) = ?n + ?m"
    "maxQPower (fst (Cohere rnd r other)) = pow2 (?n + ?m)"
    "runningNorm (fst (Cohere rnd r other))
       = par_norm (pow2 (?n + ?m)) (stateVec (fst (Cohere rnd r other)))"
    by (simp_all add: Cohere_def Let_def qc UpdateRunningNorm_def)
  have wfr: "wf_reg (fst (Cohere rnd r other))"
    using small by (simp add: wf_reg_def rest sv)
  show ?thesis
    unfolding nat_startMask nat_endMask_mask
    using rest wfr
    by (simp add: sv lens nat_and_mask_less nat_end_index_less del: drop_bit_and)
qed

theorem Cohere_product_witness:
  "wf_reg \<lparr>runningNorm = 1, qubitCount = 1, maxQPower = 2, stateVec = [1, 0]\<rparr>
   \<and> wf_reg \<lparr>runningNorm = 2, qubitCount = 1, maxQPower = 2, stateVec = [2, 0]\<rparr>
   \<and> qubitCount \<lparr>runningNorm = 1, qubitCount = 1, maxQPower = 2, stateVec = [1, 0]\<rparr>
     + qubitCount \<lparr>runningNorm = 2, qubitCount = 1, maxQPower = 2, stateVec = [2, 0]\<rparr> \<le> 30
   \<and> snd (Cohere 0 \<lparr>runningNorm = 1, qubitCount = 1, maxQPower = 2, stateVec = [1, 0]\<rparr>
                   \<lparr>runningNorm = 2, qubitCount = 1, maxQPower = 2, stateVec = [2, 0]\<rparr>)
       = normalize_if_needed \<lparr>runningNorm = 2, qubitCount = 1, maxQPower = 2, stateVec = [2, 0]\<rparr>
   \<and> qubitCount (fst (Cohere 0 \<lparr>runningNorm = 1, qubitCount = 1, maxQPower = 2, stateVec = [1, 0]\<rparr>
                   \<lparr>runningNorm = 2, qubitCount = 1, maxQPower = 2, stateVec = [2, 0]\<rparr>)) = 2
   \<and> length (stateVec (fst (Cohere 0 \<lparr>runningNorm = 1, qubitCount = 1, maxQPower = 2, stateVec = [1, 0]\<rparr>
                   \<lparr>runningNorm = 2, qubitCount = 1, maxQPower = 2, stateVec = [2, 0]\<rparr>))) = 4"
proof -
  let ?r = "\<lparr>runningNorm = 1, qubitCount = 1, maxQPower = 2, stateVec = [1, 0 :: complex]\<rparr>"
  let ?o = "\<lparr>runningNorm = 2, qubitCount = 1, maxQPower = 2, stateVec = [2, 0 :: complex]\<rparr>"
  have wf: "wf_reg ?r" and wfo: "wf_reg ?o"
    by (simp_all add: wf_reg_def pow2_def)
  have small: "qubitCount ?r + qubitCount ?o \<le> 30"
    by simp
  show ?thesis
    using Cohere_product [OF wf wfo small, of 0] wf wfo by simp
qed

end
